theory Spec2Isabelle
  imports Complex_Main
begin

section \<open>Values of a float32 array\<close>

text \<open>
  The heatmap and the keypoint array hold IEEE-754 single precision numbers. A finite
  number is represented by the real it denotes; the three special values are kept
  apart, because comparison, \<open>max\<close>, \<open>argmax\<close>, subtraction and \<open>sign\<close> treat them
  specially. Heatmap entries are floats as they are given. Of the numbers the decoder
  forms itself,
  \<^item> the sign of a difference of two entries is the sign of the exact difference;
  \<^item> the flat index of the peak is rounded when it is cast to float32
    (\<open>astype_float32\<close>), and so is its quotient by the width;
  \<^item> a coordinate plus or minus a quarter is rounded when it is stored into the float32
    keypoint array (\<open>store_f32\<close>).
  Signed zeros are identified.
\<close>

datatype fval = NaN | NInf | Fin real | PInf

fun is_nan :: "fval \<Rightarrow> bool" where
  "is_nan NaN = True"
| "is_nan _ = False"

fun is_finite :: "fval \<Rightarrow> bool" where
  "is_finite (Fin _) = True"
| "is_finite _ = False"

text \<open>IEEE comparison \<open>a <= b\<close>: false as soon as one side is NaN.\<close>

fun fle :: "fval \<Rightarrow> fval \<Rightarrow> bool" where
  "fle NaN _ = False"
| "fle _ NaN = False"
| "fle NInf _ = True"
| "fle _ PInf = True"
| "fle (Fin a) (Fin b) = (a \<le> b)"
| "fle (Fin _) NInf = False"
| "fle PInf _ = False"

text \<open>IEEE comparison \<open>a > b\<close>: false as soon as one side is NaN.\<close>

fun fgt :: "fval \<Rightarrow> fval \<Rightarrow> bool" where
  "fgt NaN _ = False"
| "fgt _ NaN = False"
| "fgt NInf _ = False"
| "fgt PInf PInf = False"
| "fgt PInf _ = True"
| "fgt (Fin a) (Fin b) = (a > b)"
| "fgt (Fin _) NInf = True"
| "fgt (Fin _) PInf = False"

fun fneg :: "fval \<Rightarrow> fval" where
  "fneg NaN = NaN"
| "fneg NInf = PInf"
| "fneg PInf = NInf"
| "fneg (Fin a) = Fin (- a)"

fun fadd :: "fval \<Rightarrow> fval \<Rightarrow> fval" where
  "fadd NaN _ = NaN"
| "fadd _ NaN = NaN"
| "fadd (Fin a) (Fin b) = Fin (a + b)"
| "fadd PInf NInf = NaN"
| "fadd NInf PInf = NaN"
| "fadd PInf _ = PInf"
| "fadd _ PInf = PInf"
| "fadd NInf _ = NInf"
| "fadd _ NInf = NInf"

definition fsub :: "fval \<Rightarrow> fval \<Rightarrow> fval" where
  "fsub a b = fadd a (fneg b)"

text \<open>The product of an infinity and a finite factor: NaN for a zero factor.\<close>

definition inf_times :: "bool \<Rightarrow> real \<Rightarrow> fval" where
  "inf_times positive b =
     (if b = 0 then NaN else if (0 < b) = positive then PInf else NInf)"

fun fmul :: "fval \<Rightarrow> fval \<Rightarrow> fval" where
  "fmul NaN _ = NaN"
| "fmul _ NaN = NaN"
| "fmul (Fin a) (Fin b) = Fin (a * b)"
| "fmul PInf (Fin b) = inf_times True b"
| "fmul NInf (Fin b) = inf_times False b"
| "fmul (Fin a) PInf = inf_times True a"
| "fmul (Fin a) NInf = inf_times False a"
| "fmul PInf PInf = PInf"
| "fmul NInf NInf = PInf"
| "fmul PInf NInf = NInf"
| "fmul NInf PInf = NInf"

text \<open>\<open>np.sign\<close>: \<open>+1\<close>, \<open>-1\<close> or \<open>0\<close>, and NaN for NaN.\<close>

fun fsign :: "fval \<Rightarrow> fval" where
  "fsign NaN = NaN"
| "fsign PInf = Fin 1"
| "fsign NInf = Fin (- 1)"
| "fsign (Fin v) = Fin (sgn v)"


section \<open>Exceptions\<close>

text \<open>
  The exceptions the modelled code can raise, named after the operation that raises
  them:
  \<^item> \<open>AssertionError\<close>: the \<open>assert\<close> of \<open>__init__\<close>;
  \<^item> \<open>ShapeIndexError\<close>: \<open>heatmap.shape[0]\<close> of an array without axes (Python's
    \<open>IndexError\<close> on the empty tuple);
  \<^item> \<open>ReshapeError\<close>: \<open>F.reshape\<close> to a shape that does not fit;
  \<^item> \<open>ArgmaxError\<close>: \<open>F.argmax\<close> along an axis of length zero;
  \<^item> \<open>ConcatError\<close>: \<open>F.concat\<close> of arrays that differ in dtype (chainer's
    \<open>InvalidType\<close>);
  \<^item> \<open>IntError\<close>: \<open>int\<close> of a NaN or an infinity;
  \<^item> \<open>IndexError\<close>: an array indexed with too many indices or out of range;
  \<^item> \<open>SetItemError\<close>: an array of several numbers stored into one entry.
\<close>

datatype error =
    AssertionError
  | ShapeIndexError
  | ReshapeError
  | ArgmaxError
  | ConcatError
  | IntError
  | IndexError
  | SetItemError

text \<open>Python's \<open>int(v)\<close> on a float: truncation toward zero; NaN and the infinities raise.\<close>

definition to_int :: "fval \<Rightarrow> error + int" where
  "to_int v = (case v of Fin r \<Rightarrow> Inr (if 0 \<le> r then \<lfloor>r\<rfloor> else \<lceil>r\<rceil>) | _ \<Rightarrow> Inl IntError)"

section \<open>The flat index in int32 and float32\<close>

text \<open>The number of binary digits of a natural number.\<close>

fun bits :: "nat \<Rightarrow> nat" where
  "bits n = (if n = 0 then 0 else Suc (bits (n div 2)))"

declare bits.simps [simp del]

text \<open>
  The float32 nearest to a natural number, ties to the even significand: a number
  below \<open>2 ^ 24\<close> is a float32; a larger one keeps its 24 leading binary digits
  \<open>q\<close>, rounded by the remaining \<open>e\<close> digits \<open>r\<close>. (A float32 overflows
  only from \<open>2 ^ 128\<close> on, far above an int32.)
\<close>

definition cast_f32 :: "nat \<Rightarrow> nat" where
  "cast_f32 n =
     (if n < 2 ^ 24 then n
      else (let e = bits n - 24; q = n div 2 ^ e; r = n mod 2 ^ e
            in if 2 * r < 2 ^ e \<or> (2 * r = 2 ^ e \<and> even q) then q * 2 ^ e else (q + 1) * 2 ^ e))"

text \<open>
  \<open>F.argmax\<close> returns its indices as int32 (\<open>astype(numpy.int32)\<close>, which wraps
  around), and \<open>F.cast(\<dots>, np.float32)\<close> rounds them to float32.
\<close>

definition astype_int32 :: "nat \<Rightarrow> int" where
  "astype_int32 n = (let m = int (n mod 2 ^ 32) in if m < 2 ^ 31 then m else m - 2 ^ 32)"

definition astype_float32 :: "int \<Rightarrow> int" where
  "astype_float32 z = (if z < 0 then - int (cast_f32 (nat (- z))) else int (cast_f32 (nat z)))"

text \<open>
  A number \<open>v\<close> as it is stored into a float32 array. The numbers the decoder stores
  are an integer coordinate plus a quarter of a sign, that is, multiples of a quarter;
  for such a \<open>v\<close> the float32 nearest to \<open>v\<close> is a quarter of the float32 nearest to
  the integer \<open>4 * v\<close>.
\<close>

definition store_f32 :: "fval \<Rightarrow> fval" where
  "store_f32 v = (case v of Fin r \<Rightarrow> Fin (real_of_int (astype_float32 \<lfloor>4 * r\<rfloor>) / 4) | _ \<Rightarrow> v)"

text \<open>
  The dtype of \<open>a % w\<close> and \<open>a // w\<close> for a float32 array \<open>a\<close> and a Python int
  \<open>w\<close>, by the value-based casting of numpy 1, on which chainer runs: the int
  counts as the smallest integer type that holds it, and float32 is kept with an 8-bit
  or 16-bit integer only. From \<open>w = 65536\<close> on the result is a float64 array.
\<close>

datatype dtype = Float32 | Float64

definition keys_dtype :: "nat \<Rightarrow> dtype" where
  "keys_dtype w = (if w < 65536 then Float32 else Float64)"

section \<open>Arrays\<close>

text \<open>
  An array is its shape and its entries in row-major (C) order, as numpy stores a
  contiguous array. Every array numpy builds satisfies \<open>valid_array\<close>.
\<close>

record ndarray =
  shape :: "nat list"
  data :: "fval list"

definition valid_array :: "ndarray \<Rightarrow> bool" where
  "valid_array a = (length (data a) = prod_list (shape a))"

text \<open>
  \<open>F.reshape(heatmap, shape=(batch, keypoints, -1))\<close>: the length the \<open>-1\<close> stands for.
  The reshape is refused when the known dimensions multiply to zero or do not divide
  the number of entries.
\<close>

definition infer_dim :: "nat \<Rightarrow> nat \<Rightarrow> nat \<Rightarrow> error + nat" where
  "infer_dim batch K entries =
     (if batch * K = 0 \<or> entries mod (batch * K) \<noteq> 0 then Inl ReshapeError
      else Inr (entries div (batch * K)))"

text \<open>The \<open>m\<close> rows of length \<open>n\<close> of a row-major array of shape \<open>(m, n)\<close>.\<close>

definition rows :: "nat \<Rightarrow> nat \<Rightarrow> fval list \<Rightarrow> fval list list" where
  "rows m n xs = map (\<lambda>i. take n (drop (i * n) xs)) [0..<m]"

text \<open>
  \<open>argmax\<close> of one row, as numpy scans it: the running maximum \<open>mp\<close> and its index
  \<open>max_ind\<close> are replaced by entry \<open>i\<close> when \<open>not (x <= mp)\<close>; a NaN is maximal and
  ends the scan. The first of several equal maxima is therefore the one returned.
\<close>

fun argmax_scan :: "fval \<Rightarrow> nat \<Rightarrow> nat \<Rightarrow> fval list \<Rightarrow> nat" where
  "argmax_scan mp max_ind i [] = max_ind"
| "argmax_scan mp max_ind i (x # xs) =
     (if \<not> fle x mp then (if is_nan x then i else argmax_scan x i (Suc i) xs)
      else argmax_scan mp max_ind (Suc i) xs)"

definition argmax_row :: "fval list \<Rightarrow> nat" where
  "argmax_row xs =
     (case xs of [] \<Rightarrow> 0 | x # rest \<Rightarrow> if is_nan x then 0 else argmax_scan x 0 1 rest)"

text \<open>\<open>F.argmax\<close> of one row: the index as an int32.\<close>

definition F_argmax :: "fval list \<Rightarrow> int" where
  "F_argmax xs = astype_int32 (argmax_row xs)"

text \<open>\<open>max\<close> of one row: a left fold of \<open>np.maximum\<close>, which lets a NaN through.\<close>

definition fmaximum :: "fval \<Rightarrow> fval \<Rightarrow> fval" where
  "fmaximum a b = (if fle b a \<or> is_nan a then a else b)"

definition amax_row :: "fval list \<Rightarrow> fval" where
  "amax_row xs = (case xs of [] \<Rightarrow> NaN | x # rest \<Rightarrow> foldl fmaximum x rest)"

text \<open>
  \<open>indices % W\<close> and \<open>indices // W\<close> on the float32 index array, \<open>W\<close> a Python int
  below \<open>65536\<close> (a float32 itself), for an index of value \<open>z\<close>. The remainder has
  the sign of the divisor and is exact. The quotient is the floor of \<open>z / W\<close>; numpy
  forms it in float32 from \<open>z - z % W\<close>, which is exact for an index below
  \<open>2 ^ 24\<close> in magnitude, and it is taken here as the float32 nearest to the floor
  for a larger one. Division by zero gives NaN, or an infinity for a nonzero index, not
  an exception. (For larger \<open>W\<close> the two arrays are float64, and \<open>F.concat\<close> below
  refuses them.)
\<close>

definition idx_mod :: "int \<Rightarrow> nat \<Rightarrow> fval" where
  "idx_mod z w = (if w = 0 then NaN else Fin (real_of_int (z mod int w)))"

definition idx_floordiv :: "int \<Rightarrow> nat \<Rightarrow> fval" where
  "idx_floordiv z w =
     (if w = 0 then (if z = 0 then NaN else if 0 < z then PInf else NInf)
      else Fin (real_of_int (astype_float32 (z div int w))))"

text \<open>\<open>(scores.array > 0.0).astype(np.float32)\<close>\<close>

definition score_mask :: "fval \<Rightarrow> fval" where
  "score_mask s = (if fgt s (Fin 0) then Fin 1 else Fin 0)"

text \<open>
  \<open>F.concat((keys_x, keys_y, scores), axis=2)\<close> of three arrays of shape \<open>(B, K, 1)\<close>:
  a new array of shape \<open>(B, K, 3)\<close>. The inputs must agree in dtype; \<open>scores\<close> is
  float32 as the heatmap is, and \<open>dt\<close> is the dtype of \<open>keys_x\<close> and \<open>keys_y\<close>.
\<close>

definition concat3 :: "fval list \<Rightarrow> fval list \<Rightarrow> fval list \<Rightarrow> fval list" where
  "concat3 xs ys zs = concat (map (\<lambda>(x, y, z). [x, y, z]) (zip xs (zip ys zs)))"

definition F_concat :: "dtype \<Rightarrow> fval list \<Rightarrow> fval list \<Rightarrow> fval list \<Rightarrow> error + fval list" where
  "F_concat dt keys_x keys_y scores =
     (if dt = Float32 then Inr (concat3 keys_x keys_y scores) else Inl ConcatError)"

text \<open>
  \<open>heatmap[b, k, :, :]\<close>: an \<open>IndexError\<close> for fewer than four axes or an index out of
  range; axes beyond the fourth stay in the slice.
\<close>

definition get_item :: "ndarray \<Rightarrow> nat \<Rightarrow> nat \<Rightarrow> error + ndarray" where
  "get_item a b k =
     (case shape a of
        s0 # s1 # s2 # s3 # rest \<Rightarrow>
          (if b < s0 \<and> k < s1 then
             (let sz = s2 * s3 * prod_list rest
              in Inr \<lparr>shape = s2 # s3 # rest, data = take sz (drop ((b * s1 + k) * sz) (data a))\<rparr>)
           else Inl IndexError)
      | _ \<Rightarrow> Inl IndexError)"

text \<open>
  \<open>hm[r, c]\<close> with Python ints: a negative index counts from the end, an index out
  of range raises. The result is the sub-array at that position, a single entry
  when \<open>hm\<close> has two axes.
\<close>

definition wrap_index :: "int \<Rightarrow> nat \<Rightarrow> error + nat" where
  "wrap_index i n =
     (let j = (if i < 0 then i + int n else i)
      in if 0 \<le> j \<and> j < int n then Inr (nat j) else Inl IndexError)"

definition item2 :: "ndarray \<Rightarrow> int \<Rightarrow> int \<Rightarrow> error + fval list" where
  "item2 hm r c =
     (case shape hm of
        s2 # s3 # rest \<Rightarrow>
          (case wrap_index r s2 of Inl e \<Rightarrow> Inl e | Inr r' \<Rightarrow>
          (case wrap_index c s3 of Inl e \<Rightarrow> Inl e | Inr c' \<Rightarrow>
             (let d = prod_list rest
              in Inr (take d (drop ((r' * s3 + c') * d) (data hm))))))
      | _ \<Rightarrow> Inl IndexError)"

text \<open>\<open>np.sign(u - v) * 0.25\<close>, on numbers and entry by entry on sub-arrays.\<close>

definition quarter :: "fval \<Rightarrow> fval \<Rightarrow> fval" where
  "quarter u v = fmul (fsign (fsub u v)) (Fin (1 / 4))"

definition quarter_sign :: "fval list \<Rightarrow> fval list \<Rightarrow> fval list" where
  "quarter_sign us vs = map (\<lambda>(u, v). quarter u v) (zip us vs)"

text \<open>
  \<open>keypoints[i] += vs\<close> on one entry of the array: the entry plus \<open>vs\<close> is stored
  back as a float32, which numpy accepts only when it is a single number. (The
  position is in range wherever the decoder uses it.)
\<close>

definition iadd_item :: "fval list \<Rightarrow> nat \<Rightarrow> fval list \<Rightarrow> error + fval list" where
  "iadd_item kp i vs =
     (if i < length kp then
        (case map (\<lambda>v. store_f32 (fadd (kp ! i) v)) vs of
           [v] \<Rightarrow> Inr (kp[i := v])
         | _ \<Rightarrow> Inl SetItemError)
      else Inl IndexError)"

section \<open>The decoder of \<open>SimplePose.__call__\<close>\<close>

text \<open>A \<open>for\<close> loop over a list of indices that threads a state and stops at the first exception.\<close>

fun for_each :: "'i list \<Rightarrow> ('i \<Rightarrow> 's \<Rightarrow> error + 's) \<Rightarrow> 's \<Rightarrow> error + 's" where
  "for_each [] f s = Inr s"
| "for_each (i # rest) f s = (case f i s of Inl e \<Rightarrow> Inl e | Inr s' \<Rightarrow> for_each rest f s')"

text \<open>
  The body of the two loops (source lines 168 to 173) for one \<open>(b, k)\<close>, on the
  entries of \<open>keypoints\<close>. Entry \<open>[b, k, c]\<close> of an array of shape \<open>(batch, K, 3)\<close> is
  entry \<open>3 * (b * K + k) + c\<close> of its data, and \<open>keys_x[b, k]\<close> is entry \<open>b * K + k\<close>.
\<close>

definition refine ::
  "nat \<times> nat \<Rightarrow> nat \<Rightarrow> ndarray \<Rightarrow> fval list \<Rightarrow> fval list \<Rightarrow> nat \<Rightarrow> nat \<Rightarrow> fval list \<Rightarrow> error + fval list" where
  "refine out_size K heatmap keys_x keys_y b k keypoints =
     (case get_item heatmap b k of Inl e \<Rightarrow> Inl e | Inr hm \<Rightarrow>
     (case to_int (keys_x ! (b * K + k)) of Inl e \<Rightarrow> Inl e | Inr px \<Rightarrow>
     (case to_int (keys_y ! (b * K + k)) of Inl e \<Rightarrow> Inl e | Inr py \<Rightarrow>
        if (1 < px \<and> px < int (snd out_size) - 1) \<and> (1 < py \<and> py < int (fst out_size) - 1) then
          (case item2 hm py (px + 1) of Inl e \<Rightarrow> Inl e | Inr x_hi \<Rightarrow>
          (case item2 hm py (px - 1) of Inl e \<Rightarrow> Inl e | Inr x_lo \<Rightarrow>
          (case iadd_item keypoints (3 * (b * K + k)) (quarter_sign x_hi x_lo) of
             Inl e \<Rightarrow> Inl e | Inr keypoints1 \<Rightarrow>
          (case item2 hm (py + 1) px of Inl e \<Rightarrow> Inl e | Inr y_hi \<Rightarrow>
          (case item2 hm (py - 1) px of Inl e \<Rightarrow> Inl e | Inr y_lo \<Rightarrow>
             iadd_item keypoints1 (3 * (b * K + k) + 1) (quarter_sign y_hi y_lo))))))
        else Inr keypoints)))"

text \<open>
  Source lines 157 to 174: from the heatmap to the keypoint array, for a model with
  output size \<open>out_size = (height, width)\<close> and \<open>K\<close> keypoints.
\<close>

definition decode :: "nat \<times> nat \<Rightarrow> nat \<Rightarrow> ndarray \<Rightarrow> error + ndarray" where
  "decode out_size K heatmap =
     (case shape heatmap of
        [] \<Rightarrow> Inl ShapeIndexError
      | batch # _ \<Rightarrow>
         (case infer_dim batch K (prod_list (shape heatmap)) of
            Inl e \<Rightarrow> Inl e
          | Inr n \<Rightarrow>
             if n = 0 then Inl ArgmaxError
             else
               (let heatmap_vector = rows (batch * K) n (data heatmap);
                    indices = map (\<lambda>row. astype_float32 (F_argmax row)) heatmap_vector;
                    scores = map amax_row heatmap_vector;
                    scores_mask = map score_mask scores;
                    keys_x = map (\<lambda>(z, m). fmul (idx_mod z (snd out_size)) m) (zip indices scores_mask);
                    keys_y = map (\<lambda>(z, m). fmul (idx_floordiv z (snd out_size)) m) (zip indices scores_mask)
                in (case F_concat (keys_dtype (snd out_size)) keys_x keys_y scores of
                      Inl e \<Rightarrow> Inl e
                    | Inr keypoints \<Rightarrow>
                       (case for_each [0..<batch]
                               (\<lambda>b. for_each [0..<K] (refine out_size K heatmap keys_x keys_y b))
                               keypoints of
                          Inl e \<Rightarrow> Inl e
                        | Inr kp \<Rightarrow> Inr \<lparr>shape = [batch, K, 3], data = kp\<rparr>)))))"

section \<open>The decoder on a heap of arrays\<close>

text \<open>
  The arrays as objects: a heap is the list of the arrays allocated so far, an address
  is a position in it, and a new array is put at the end. \<open>decode_st\<close> is the decoder
  of \<open>decode\<close> on a heap: the heatmap is the object at address \<open>p\<close>, \<open>F.concat\<close>
  allocates the keypoint array, the slice \<open>hm\<close> is a view (every read of an entry goes
  to the heap as it is then), and \<open>keypoints[b, k, 0] += \<dots>\<close> overwrites an entry of the
  object at address \<open>q\<close>. The other intermediate arrays are never written to and stay
  values. An exception leaves the heap as it is at that point.
\<close>

type_synonym heap = "ndarray list"

definition alloc :: "ndarray \<Rightarrow> heap \<Rightarrow> nat \<times> heap" where
  "alloc x h = (length h, h @ [x])"

text \<open>\<open>hm[r, c]\<close> through the view \<open>hm = heatmap[b, k, :, :]\<close> of the object at \<open>p\<close>.\<close>

definition read2 :: "heap \<Rightarrow> nat \<Rightarrow> nat \<Rightarrow> nat \<Rightarrow> int \<Rightarrow> int \<Rightarrow> error + fval list" where
  "read2 h p b k r c = (case get_item (h ! p) b k of Inl e \<Rightarrow> Inl e | Inr hm \<Rightarrow> item2 hm r c)"

text \<open>\<open>keypoints[i] += vs\<close> on the object at \<open>q\<close>.\<close>

definition iadd_at :: "heap \<Rightarrow> nat \<Rightarrow> nat \<Rightarrow> fval list \<Rightarrow> error + heap" where
  "iadd_at h q i vs =
     (case iadd_item (data (h ! q)) i vs of
        Inl e \<Rightarrow> Inl e
      | Inr d \<Rightarrow> Inr (h[q := (h ! q)\<lparr>data := d\<rparr>]))"

fun for_each_st ::
  "'i list \<Rightarrow> ('i \<Rightarrow> heap \<Rightarrow> (error + unit) \<times> heap) \<Rightarrow> heap \<Rightarrow> (error + unit) \<times> heap" where
  "for_each_st [] f h = (Inr (), h)"
| "for_each_st (i # rest) f h =
     (case f i h of (Inl e, h') \<Rightarrow> (Inl e, h') | (Inr _, h') \<Rightarrow> for_each_st rest f h')"

definition refine_st ::
  "nat \<times> nat \<Rightarrow> nat \<Rightarrow> nat \<Rightarrow> nat \<Rightarrow> fval list \<Rightarrow> fval list \<Rightarrow> nat \<Rightarrow> nat \<Rightarrow> heap
   \<Rightarrow> (error + unit) \<times> heap" where
  "refine_st out_size K p q keys_x keys_y b k h =
     (case get_item (h ! p) b k of Inl e \<Rightarrow> (Inl e, h) | Inr _ \<Rightarrow>
     (case to_int (keys_x ! (b * K + k)) of Inl e \<Rightarrow> (Inl e, h) | Inr px \<Rightarrow>
     (case to_int (keys_y ! (b * K + k)) of Inl e \<Rightarrow> (Inl e, h) | Inr py \<Rightarrow>
        if (1 < px \<and> px < int (snd out_size) - 1) \<and> (1 < py \<and> py < int (fst out_size) - 1) then
          (case read2 h p b k py (px + 1) of Inl e \<Rightarrow> (Inl e, h) | Inr x_hi \<Rightarrow>
          (case read2 h p b k py (px - 1) of Inl e \<Rightarrow> (Inl e, h) | Inr x_lo \<Rightarrow>
          (case iadd_at h q (3 * (b * K + k)) (quarter_sign x_hi x_lo) of
             Inl e \<Rightarrow> (Inl e, h) | Inr h1 \<Rightarrow>
          (case read2 h1 p b k (py + 1) px of Inl e \<Rightarrow> (Inl e, h1) | Inr y_hi \<Rightarrow>
          (case read2 h1 p b k (py - 1) px of Inl e \<Rightarrow> (Inl e, h1) | Inr y_lo \<Rightarrow>
          (case iadd_at h1 q (3 * (b * K + k) + 1) (quarter_sign y_hi y_lo) of
             Inl e \<Rightarrow> (Inl e, h1) | Inr h2 \<Rightarrow> (Inr (), h2)))))))
        else (Inr (), h))))"

definition decode_st :: "nat \<times> nat \<Rightarrow> nat \<Rightarrow> nat \<Rightarrow> heap \<Rightarrow> (error + nat) \<times> heap" where
  "decode_st out_size K p h =
     (case shape (h ! p) of
        [] \<Rightarrow> (Inl ShapeIndexError, h)
      | batch # _ \<Rightarrow>
         (case infer_dim batch K (prod_list (shape (h ! p))) of
            Inl e \<Rightarrow> (Inl e, h)
          | Inr n \<Rightarrow>
             if n = 0 then (Inl ArgmaxError, h)
             else
               (let heatmap_vector = rows (batch * K) n (data (h ! p));
                    indices = map (\<lambda>row. astype_float32 (F_argmax row)) heatmap_vector;
                    scores = map amax_row heatmap_vector;
                    scores_mask = map score_mask scores;
                    keys_x = map (\<lambda>(z, m). fmul (idx_mod z (snd out_size)) m) (zip indices scores_mask);
                    keys_y = map (\<lambda>(z, m). fmul (idx_floordiv z (snd out_size)) m) (zip indices scores_mask)
                in (case F_concat (keys_dtype (snd out_size)) keys_x keys_y scores of
                      Inl e \<Rightarrow> (Inl e, h)
                    | Inr keypoints \<Rightarrow>
                       (let (q, h0) = alloc \<lparr>shape = [batch, K, 3], data = keypoints\<rparr> h
                        in (case for_each_st [0..<batch]
                                   (\<lambda>b. for_each_st [0..<K] (refine_st out_size K p q keys_x keys_y b))
                                   h0 of
                              (Inl e, h') \<Rightarrow> (Inl e, h')
                            | (Inr _, h') \<Rightarrow> (Inr q, h')))))))"

text \<open>The outcome of a step without its value.\<close>

definition status :: "error + 'a \<Rightarrow> error + unit" where
  "status r = (case r of Inl e \<Rightarrow> Inl e | Inr _ \<Rightarrow> Inr ())"

text \<open>What the caller holds after the call: the exception, or the array at the returned address.\<close>

definition result_of :: "(error + nat) \<times> heap \<Rightarrow> error + ndarray" where
  "result_of rh = (case fst rh of Inl e \<Rightarrow> Inl e | Inr q \<Rightarrow> Inr (snd rh ! q))"

section \<open>The model object\<close>

text \<open>
  The backbone, the deconvolution blocks and the final convolution are trained
  networks; they appear as the functions they compute.
\<close>

record SimplePose =
  backbone :: "ndarray \<Rightarrow> ndarray"
  decoder :: "ndarray \<Rightarrow> ndarray"
  final_block :: "ndarray \<Rightarrow> ndarray"
  in_size :: "nat \<times> nat"
  keypoints :: nat
  return_heatmap :: bool
  out_size :: "nat \<times> nat"

text \<open>
  \<open>SimplePose.__init__\<close>: the options are stored in the object once. The arguments
  \<open>backbone_out_channels\<close> and \<open>channels\<close> only size the deconvolution blocks and the
  final convolution, which are given here as \<open>dec\<close> and \<open>fin\<close>.
\<close>

definition SimplePose_init ::
  "(ndarray \<Rightarrow> ndarray) \<Rightarrow> (ndarray \<Rightarrow> ndarray) \<Rightarrow> (ndarray \<Rightarrow> ndarray) \<Rightarrow>
   bool \<Rightarrow> nat \<Rightarrow> nat \<times> nat \<Rightarrow> nat \<Rightarrow> error + SimplePose" where
  "SimplePose_init bb dec fin ret_heatmap in_channels insz kpts =
     (if in_channels \<noteq> 3 then Inl AssertionError
      else Inr \<lparr>backbone = bb, decoder = dec, final_block = fin, in_size = insz,
                keypoints = kpts, return_heatmap = ret_heatmap,
                out_size = (fst insz div 4, snd insz div 4)\<rparr>)"

text \<open>\<open>SimplePose.__call__\<close>\<close>

definition SimplePose_call :: "SimplePose \<Rightarrow> ndarray \<Rightarrow> error + ndarray" where
  "SimplePose_call net x =
     (let heatmap = final_block net (decoder net (backbone net x))
      in if return_heatmap net then Inr heatmap
         else decode (out_size net) (keypoints net) heatmap)"

section \<open>Vocabulary of the specification\<close>

text \<open>
  The entry \<open>hm[row, col]\<close> of the slice \<open>(b, k)\<close> of a heatmap of shape
  \<open>(B, K, H, W)\<close>, and the slice as the row-major list of its \<open>H * W\<close> entries.
\<close>

definition hm_entry :: "ndarray \<Rightarrow> nat \<Rightarrow> nat \<Rightarrow> nat \<Rightarrow> nat \<Rightarrow> fval" where
  "hm_entry a b k r c =
     data a ! (((b * (shape a ! 1) + k) * (shape a ! 2) + r) * (shape a ! 3) + c)"

definition hm_slice :: "ndarray \<Rightarrow> nat \<Rightarrow> nat \<Rightarrow> fval list" where
  "hm_slice a b k =
     take (shape a ! 2 * shape a ! 3)
       (drop ((b * (shape a ! 1) + k) * (shape a ! 2 * shape a ! 3)) (data a))"

text \<open>
  \<open>first_max xs i\<close>: position \<open>i\<close> holds a maximum of \<open>xs\<close> and every earlier
  entry is strictly smaller, that is, \<open>i\<close> is the first occurrence of the maximum.
\<close>

definition first_max :: "fval list \<Rightarrow> nat \<Rightarrow> bool" where
  "first_max xs i =
     (i < length xs \<and> list_all (\<lambda>x. fle x (xs ! i)) xs \<and> list_all (\<lambda>x. fgt (xs ! i) x) (take i xs))"

text \<open>
  A heatmap as the network produces it for a model with \<open>K\<close> keypoints and output
  size \<open>(H, W)\<close>, on a batch of \<open>B\<close> images.
\<close>

definition heatmap_ok :: "ndarray \<Rightarrow> nat \<Rightarrow> nat \<Rightarrow> nat \<Rightarrow> nat \<Rightarrow> bool" where
  "heatmap_ok a B K H W =
     (shape a = [B, K, H, W] \<and> valid_array a \<and> 0 < B \<and> 0 < K \<and> 0 < H \<and> 0 < W)"

text \<open>The real a finite float denotes, and the sign function of the specification.\<close>

fun rv :: "fval \<Rightarrow> real" where
  "rv (Fin r) = r"
| "rv _ = 0"

definition sign :: "real \<Rightarrow> real" where
  "sign v = (if 0 < v then 1 else if v < 0 then - 1 else 0)"

text \<open>The entries \<open>x\<close>, \<open>y\<close> and \<open>score\<close> of slot \<open>(b, k)\<close> of a keypoint array.\<close>

definition kp_x :: "ndarray \<Rightarrow> nat \<Rightarrow> nat \<Rightarrow> fval" where
  "kp_x r b k = data r ! (3 * (b * (shape r ! 1) + k))"

definition kp_y :: "ndarray \<Rightarrow> nat \<Rightarrow> nat \<Rightarrow> fval" where
  "kp_y r b k = data r ! (3 * (b * (shape r ! 1) + k) + 1)"

definition kp_score :: "ndarray \<Rightarrow> nat \<Rightarrow> nat \<Rightarrow> fval" where
  "kp_score r b k = data r ! (3 * (b * (shape r ! 1) + k) + 2)"

text \<open>
  The record \<open>[x, y, score]\<close> of one slice \<open>xs\<close> of shape \<open>(H, W)\<close> in the words of
  the specification: peak, gating and refinement as it lists them, in exact arithmetic
  on the flat index, with the \<open>argmax\<close> and \<open>max\<close> of numpy.
\<close>

definition slot_of :: "nat \<Rightarrow> nat \<Rightarrow> fval list \<Rightarrow> fval list" where
  "slot_of H W xs =
     (let idx = argmax_row xs; score = amax_row xs; col = idx mod W; row = idx div W
      in if fgt score (Fin 0) then
           (if 1 < col \<and> col + 1 < W \<and> 1 < row \<and> row + 1 < H then
              [fadd (Fin (real col)) (quarter (xs ! (row * W + (col + 1))) (xs ! (row * W + (col - 1)))),
               fadd (Fin (real row)) (quarter (xs ! ((row + 1) * W + col)) (xs ! ((row - 1) * W + col))),
               score]
            else [Fin (real col), Fin (real row), score])
         else [Fin 0, Fin 0, score])"

text \<open>
  The record \<open>[x, y, score]\<close> that the decoder leaves in the slot of the slice \<open>xs\<close>:
  column and row come from the float32 index, and a refined coordinate is stored as a
  float32.
\<close>

definition slot_decoded :: "nat \<Rightarrow> nat \<Rightarrow> fval list \<Rightarrow> fval list" where
  "slot_decoded H W xs =
     (let z = astype_float32 (F_argmax xs); score = amax_row xs;
          col = z mod int W; row = astype_float32 (z div int W)
      in if fgt score (Fin 0) then
           (if 1 < col \<and> col + 1 < int W \<and> 1 < row \<and> row + 1 < int H then
              [store_f32 (fadd (Fin (real_of_int col))
                 (quarter (xs ! (nat row * W + (nat col + 1))) (xs ! (nat row * W + (nat col - 1))))),
               store_f32 (fadd (Fin (real_of_int row))
                 (quarter (xs ! ((nat row + 1) * W + nat col)) (xs ! ((nat row - 1) * W + nat col)))),
               score]
            else [Fin (real_of_int col), Fin (real_of_int row), score])
         else [Fin 0, Fin 0, score])"

text \<open>
  The heatmap of the specification's refinement example: one image, one keypoint, a
  \<open>5 \<times> 5\<close> slice with its peak \<open>5.0\<close> at row 2, column 2.
\<close>

definition ex5 :: ndarray where
  "ex5 = \<lparr>shape = [1, 1, 5, 5],
           data = map Fin [0, 0, 0, 0, 0,  0, 0, 1, 0, 0,  0, 1, 5, 3, 0,  0, 0, 1, 0, 0,  0, 0, 0, 0, 0]\<rparr>"


definition ex_batch :: ndarray where
  "ex_batch = \<lparr>shape = [2, 2, 1, 2], data = map Fin [1, 2,  4, 3,  - 2, - 1,  0, 5]\<rparr>"

text \<open>
  Malformed and non-finite inputs: a heatmap without batch axis for a model with two
  keypoints and output size \<open>2 \<times> 2\<close>, a heatmap with a fifth axis, and the
  refinement example with a NaN above the peak, or with \<open>-\<infinity>\<close> left and right of it.
\<close>

definition ex3d :: ndarray where
  "ex3d = \<lparr>shape = [2, 2, 2], data = map Fin [1, 2, 3, 4, 5, 6, 7, 8]\<rparr>"

definition ex5d :: ndarray where
  "ex5d = \<lparr>shape = [1, 1, 4, 4, 1], data = replicate 16 (Fin 1)\<rparr>"

text \<open>
  Large heatmaps of one slice: \<open>wide_hm v\<close> is a single row of \<open>65536\<close> entries
  \<open>v\<close>, and \<open>spike H W i\<close> is zero everywhere but for a one at the flat position
  \<open>i\<close>.
\<close>

definition wide_hm :: "fval \<Rightarrow> ndarray" where
  "wide_hm v = \<lparr>shape = [1, 1, 1, 65536], data = replicate 65536 v\<rparr>"

definition spike :: "nat \<Rightarrow> nat \<Rightarrow> nat \<Rightarrow> ndarray" where
  "spike H W i = \<lparr>shape = [1, 1, H, W], data = (replicate (H * W) (Fin 0))[i := Fin 1]\<rparr>"

definition ex_nan :: ndarray where
  "ex_nan = \<lparr>shape = [1, 1, 5, 5], data = (data ex5)[7 := NaN]\<rparr>"

definition ex_inf :: ndarray where
  "ex_inf = \<lparr>shape = [1, 1, 5, 5], data = (data ex5)[11 := NInf, 13 := NInf]\<rparr>"

text \<open>
  The two in-place updates of the loop body on the entries \<open>i\<close> and \<open>i + 1\<close> of the
  keypoint array, for \<open>px\<close> and \<open>py\<close> as \<open>int\<close> returns them and the slice \<open>xs\<close>.
\<close>

definition refined :: "nat \<Rightarrow> nat \<Rightarrow> fval list \<Rightarrow> int \<Rightarrow> int \<Rightarrow> nat \<Rightarrow> fval list \<Rightarrow> fval list" where
  "refined H W xs px py i kp =
     (if 1 < px \<and> px + 1 < int W \<and> 1 < py \<and> py + 1 < int H then
        (kp[i := store_f32 (fadd (kp ! i)
                  (quarter (xs ! (nat py * W + (nat px + 1))) (xs ! (nat py * W + (nat px - 1)))))])
          [i + 1 := store_f32 (fadd (kp ! (i + 1))
                  (quarter (xs ! ((nat py + 1) * W + nat px)) (xs ! ((nat py - 1) * W + nat px))))]
      else kp)"

section \<open>Properties of the comparisons, \<open>argmax\<close> and \<open>max\<close>\<close>

lemma fle_refl: "\<not> is_nan a \<Longrightarrow> fle a a"
  by (cases a) simp_all

lemma not_fle_fgt: "\<not> is_nan a \<Longrightarrow> \<not> is_nan b \<Longrightarrow> \<not> fle a b \<Longrightarrow> fgt a b"
  by (cases a; cases b) simp_all

lemma fgt_not_fle: "fgt a b \<Longrightarrow> \<not> fle a b"
  by (cases a; cases b) simp_all

lemma fgt_fle: "fgt a b \<Longrightarrow> fle b a"
  by (cases a; cases b) simp_all

lemma fle_trans: "fle a b \<Longrightarrow> fle b c \<Longrightarrow> fle a c"
  by (cases a; cases b; cases c) simp_all

lemma fgt_fle_trans: "fgt a b \<Longrightarrow> fle c b \<Longrightarrow> fgt a c"
  by (cases a; cases b; cases c) simp_all

lemma fle_not_nan: "fle a b \<Longrightarrow> \<not> is_nan a \<and> \<not> is_nan b"
  by (cases a; cases b) simp_all

lemma foldl_fmaximum_NaN: "foldl fmaximum NaN xs = NaN"
  by (induction xs) (simp_all add: fmaximum_def)

lemma fmaximum_keep: "fle x mp \<Longrightarrow> fmaximum mp x = mp"
  by (simp add: fmaximum_def)

lemma fmaximum_take: "\<not> fle x mp \<Longrightarrow> \<not> is_nan mp \<Longrightarrow> fmaximum mp x = x"
  by (simp add: fmaximum_def)

lemma argmax_scan_amax:
  "mi < length pre \<Longrightarrow> pre ! mi = mp \<Longrightarrow> \<not> is_nan mp \<Longrightarrow>
   (pre @ xs) ! argmax_scan mp mi (length pre) xs = foldl fmaximum mp xs"
proof (induction xs arbitrary: pre mp mi)
  case Nil
  then show ?case by simp
next
  case (Cons x xs)
  show ?case
  proof (cases "fle x mp")
    case True
    have "((pre @ [x]) @ xs) ! argmax_scan mp mi (length (pre @ [x])) xs = foldl fmaximum mp xs"
      using Cons.prems by (intro Cons.IH) (simp_all add: nth_append)
    with True show ?thesis by (simp add: fmaximum_keep)
  next
    case False
    show ?thesis
    proof (cases "is_nan x")
      case True
      then have "x = NaN" by (cases x) simp_all
      with False Cons.prems show ?thesis
        by (simp add: fmaximum_take foldl_fmaximum_NaN)
    next
      case nn: False
      have "((pre @ [x]) @ xs) ! argmax_scan x (length pre) (length (pre @ [x])) xs = foldl fmaximum x xs"
        using nn by (intro Cons.IH) simp_all
      with False nn Cons.prems show ?thesis by (simp add: fmaximum_take)
    qed
  qed
qed

lemma amax_row_argmax: "xs \<noteq> [] \<Longrightarrow> amax_row xs = xs ! argmax_row xs"
proof (cases xs)
  case Nil
  assume "xs \<noteq> []" with Nil show ?thesis by simp
next
  case (Cons x rest)
  show ?thesis
  proof (cases "is_nan x")
    case True
    then have "x = NaN" by (cases x) simp_all
    with Cons show ?thesis by (simp add: amax_row_def argmax_row_def foldl_fmaximum_NaN)
  next
    case False
    have "([x] @ rest) ! argmax_scan x 0 (length [x]) rest = foldl fmaximum x rest"
      using False by (intro argmax_scan_amax) simp_all
    with Cons False show ?thesis by (simp add: amax_row_def argmax_row_def)
  qed
qed

lemma argmax_scan_first_max:
  "list_all (\<lambda>x. \<not> is_nan x) xs \<Longrightarrow> mi < length pre \<Longrightarrow> pre ! mi = mp \<Longrightarrow>
   list_all (\<lambda>x. fle x mp) pre \<Longrightarrow> list_all (\<lambda>x. fgt mp x) (take mi pre) \<Longrightarrow>
   first_max (pre @ xs) (argmax_scan mp mi (length pre) xs)"
proof (induction xs arbitrary: pre mp mi)
  case Nil
  then show ?case by (simp add: first_max_def)
next
  case (Cons x xs)
  have "mp \<in> set pre" using Cons.prems(2,3) nth_mem by blast
  then have "fle mp mp" using Cons.prems(4) by (simp add: list_all_iff)
  then have nmp: "\<not> is_nan mp" by (simp add: fle_not_nan)
  show ?case
  proof (cases "fle x mp")
    case True
    have "first_max ((pre @ [x]) @ xs) (argmax_scan mp mi (length (pre @ [x])) xs)"
      using Cons.prems True by (intro Cons.IH) (simp_all add: nth_append)
    with True show ?thesis by simp
  next
    case False
    have nx: "\<not> is_nan x" using Cons.prems by simp
    have gt: "fgt x mp" using False nx nmp by (rule_tac not_fle_fgt) simp_all
    have "first_max ((pre @ [x]) @ xs) (argmax_scan x (length pre) (length (pre @ [x])) xs)"
    proof (intro Cons.IH)
      show "list_all (\<lambda>x. \<not> is_nan x) xs" using Cons.prems by simp
      show "length pre < length (pre @ [x])" by simp
      show "(pre @ [x]) ! length pre = x" by simp
      show "list_all (\<lambda>y. fle y x) (pre @ [x])"
        using Cons.prems gt nx by (auto simp: list_all_iff fle_refl intro: fle_trans fgt_fle)
      show "list_all (fgt x) (take (length pre) (pre @ [x]))"
        using Cons.prems gt by (auto simp: list_all_iff intro: fgt_fle_trans)
    qed
    with False nx show ?thesis by simp
  qed
qed

lemma argmax_row_first_max:
  assumes "xs \<noteq> []" and "list_all (\<lambda>x. \<not> is_nan x) xs"
  shows "first_max xs (argmax_row xs)"
proof -
  obtain x rest where xs: "xs = x # rest" using assms(1) by (cases xs) auto
  have nx: "\<not> is_nan x" using assms(2) xs by simp
  have "first_max ([x] @ rest) (argmax_scan x 0 (length [x]) rest)"
    using assms(2) xs nx by (intro argmax_scan_first_max) (simp_all add: fle_refl)
  with xs nx show ?thesis by (simp add: argmax_row_def)
qed

lemma first_max_unique:
  assumes "first_max xs i" and "first_max xs j"
  shows "i = j"
proof (rule ccontr)
  assume ne: "i \<noteq> j"
  have aux: "False" if "first_max xs a" "first_max xs b" "a < b" for a b
  proof -
    have "xs ! a \<in> set (take b xs)" using that
      by (metis first_max_def in_set_conv_nth length_take min_less_iff_conj nth_take)
    then have "fgt (xs ! b) (xs ! a)" using that(2) by (simp add: first_max_def list_all_iff)
    moreover have "fle (xs ! b) (xs ! a)" using that(1,2) by (simp add: first_max_def list_all_iff)
    ultimately show False by (simp add: fgt_not_fle)
  qed
  from ne consider "i < j" | "j < i" by linarith
  then show False using aux assms by cases blast+
qed

section \<open>The loop over the slots\<close>

lemma for_each_Inr:
  assumes "\<And>i s. i \<in> set xs \<Longrightarrow> P s \<Longrightarrow> f i s = Inr (g i s) \<and> P (g i s)" and "P s"
  shows "for_each xs f s = Inr (fold g xs s) \<and> P (fold g xs s)"
  using assms
proof (induction xs arbitrary: s)
  case Nil
  then show ?case by simp
next
  case (Cons i rest)
  have step: "f i s = Inr (g i s)" "P (g i s)" using Cons.prems by simp_all
  have "for_each rest f (g i s) = Inr (fold g rest (g i s)) \<and> P (fold g rest (g i s))"
    using Cons.prems step by (intro Cons.IH) simp_all
  with step show ?case by simp
qed

lemma slot_index_bound: "b < B \<Longrightarrow> k < (K::nat) \<Longrightarrow> b * K + k < B * K"
proof -
  assume b: "b < B" and k: "k < K"
  have "b * K + k < b * K + K" using k by simp
  also have "\<dots> = Suc b * K" by simp
  also have "\<dots> \<le> B * K" using b by (intro mult_le_mono1) simp
  finally show ?thesis .
qed

lemma chunk_bound: "j < N \<Longrightarrow> p < (n::nat) \<Longrightarrow> j * n + p < N * n"
  using slot_index_bound [of j N p n] by simp

lemma chunk_length: "j < N \<Longrightarrow> length xs = N * n \<Longrightarrow> length (take n (drop (j * n) xs)) = n"
proof -
  assume j: "j < N" and l: "length xs = N * n"
  have "Suc j * n \<le> N * n" using j by (intro mult_le_mono1) simp
  then show ?thesis using l by simp
qed

lemma chunk_nth:
  "j < N \<Longrightarrow> p < n \<Longrightarrow> length xs = N * n \<Longrightarrow> take n (drop (j * n) xs) ! p = xs ! (j * n + p)"
  using chunk_bound [of j N p n] by simp

lemma wrap_index_nat: "r < n \<Longrightarrow> wrap_index (int r) n = Inr r"
  by (simp add: wrap_index_def)

lemma item2_ok:
  assumes "shape hm = [H, W]" and "length (data hm) = H * W" and "r < H" and "c < W"
  shows "item2 hm (int r) (int c) = Inr [data hm ! (r * W + c)]"
proof -
  have "r * W + c < H * W" using assms(3,4) by (rule chunk_bound)
  then have "take 1 (drop (r * W + c) (data hm)) = [data hm ! (r * W + c)]"
    using assms(2) by (simp add: take_Suc_conv_app_nth)
  then show ?thesis using assms by (simp add: item2_def wrap_index_nat)
qed

lemma iadd_item_single:
  "i < length kp \<Longrightarrow>
   iadd_item kp i (quarter_sign [u] [v]) = Inr (kp[i := store_f32 (fadd (kp ! i) (quarter u v))])"
  by (simp add: iadd_item_def quarter_sign_def)

lemma to_int_int: "to_int (Fin (real_of_int z)) = Inr z"
  by (simp add: to_int_def)

lemma get_item_ok:
  assumes "shape a = [B, K, H, W]" and "b < B" and "k < K"
  shows "get_item a b k = Inr \<lparr>shape = [H, W], data = hm_slice a b k\<rparr>"
  using assms by (simp add: get_item_def hm_slice_def Let_def)

lemma hm_slice_length:
  assumes "shape a = [B, K, H, W]" and "valid_array a" and "b < B" and "k < K"
  shows "length (hm_slice a b k) = H * W"
proof -
  have "length (data a) = (B * K) * (H * W)" using assms(1,2) by (simp add: valid_array_def)
  moreover have "b * K + k < B * K" using assms(3,4) by (rule slot_index_bound)
  ultimately have "length (take (H * W) (drop ((b * K + k) * (H * W)) (data a))) = H * W"
    by (rule chunk_length [rotated])
  then show ?thesis using assms(1) by (simp add: hm_slice_def)
qed

lemma refine_ok:
  assumes sh: "shape a = [B, K, H, W]" and va: "valid_array a" and b: "b < B" and k: "k < K"
    and kx: "keys_x ! (b * K + k) = Fin (real_of_int px)"
    and ky: "keys_y ! (b * K + k) = Fin (real_of_int py)"
    and kl: "length kp = 3 * (B * K)"
  shows "refine (H, W) K a keys_x keys_y b k kp
         = Inr (refined H W (hm_slice a b k) px py (3 * (b * K + k)) kp)"
proof (cases "1 < px \<and> px + 1 < int W \<and> 1 < py \<and> py + 1 < int H")
  case False
  then have c: "\<not> ((1 < px \<and> px < int W - 1) \<and> (1 < py \<and> py < int H - 1))"
    by linarith
  have "refine (H, W) K a keys_x keys_y b k kp = Inr kp"
    by (simp only: refine_def get_item_ok [OF sh b k] kx ky to_int_int sum.case fst_conv snd_conv
        if_not_P [OF c])
  then show ?thesis using False by (simp only: refined_def if_not_P if_False simp_thms)
next
  case True
  let ?hm = "\<lparr>shape = [H, W], data = hm_slice a b k\<rparr>"
  define qx where "qx = nat px"
  define qy where "qy = nat py"
  have pq: "px = int qx" "py = int qy" using True by (simp_all add: qx_def qy_def)
  have int: "1 < qx \<and> qx + 1 < W \<and> 1 < qy \<and> qy + 1 < H" using True unfolding pq by linarith
  have c: "(1 < int qx \<and> int qx < int W - 1) \<and> (1 < int qy \<and> int qy < int H - 1)"
    using int by linarith
  have kx': "keys_x ! (b * K + k) = Fin (real_of_int (int qx))" using kx pq by simp
  have ky': "keys_y ! (b * K + k) = Fin (real_of_int (int qy))" using ky pq by simp
  have len: "length (data ?hm) = H * W" using hm_slice_length [OF sh va b k] by simp
  have e: "int qx + 1 = int (qx + 1)" "int qy + 1 = int (qy + 1)"
    "int qx - 1 = int (qx - 1)" "int qy - 1 = int (qy - 1)" using int by simp_all
  have sh2: "shape ?hm = [H, W]" by simp
  have lt: "qy < H" "qx + 1 < W" "qx - 1 < W" "qy + 1 < H" "qy - 1 < H" "qx < W"
    using int by linarith+
  have r1: "item2 ?hm (int qy) (int (qx + 1)) = Inr [data ?hm ! (qy * W + (qx + 1))]"
    using sh2 len lt(1) lt(2) by (rule item2_ok)
  have r2: "item2 ?hm (int qy) (int (qx - 1)) = Inr [data ?hm ! (qy * W + (qx - 1))]"
    using sh2 len lt(1) lt(3) by (rule item2_ok)
  have r3: "item2 ?hm (int (qy + 1)) (int qx) = Inr [data ?hm ! ((qy + 1) * W + qx)]"
    using sh2 len lt(4) lt(6) by (rule item2_ok)
  have r4: "item2 ?hm (int (qy - 1)) (int qx) = Inr [data ?hm ! ((qy - 1) * W + qx)]"
    using sh2 len lt(5) lt(6) by (rule item2_ok)
  have d: "data ?hm = hm_slice a b k" by simp
  have "b * K + k < B * K" using b k by (rule slot_index_bound)
  then have i0: "3 * (b * K + k) < length kp" and i1: "3 * (b * K + k) + 1 < length (kp[3 * (b * K + k) := v])" for v
    using kl by simp_all
  have n: "kp[3 * (b * K + k) := v] ! (3 * (b * K + k) + 1) = kp ! (3 * (b * K + k) + 1)" for v
    by simp
  have "refine (H, W) K a keys_x keys_y b k kp =
        Inr ((kp[3 * (b * K + k) := store_f32 (fadd (kp ! (3 * (b * K + k)))
                (quarter (hm_slice a b k ! (qy * W + (qx + 1))) (hm_slice a b k ! (qy * W + (qx - 1)))))])
              [3 * (b * K + k) + 1 := store_f32 (fadd (kp ! (3 * (b * K + k) + 1))
                (quarter (hm_slice a b k ! ((qy + 1) * W + qx)) (hm_slice a b k ! ((qy - 1) * W + qx))))])"
    by (simp only: refine_def get_item_ok [OF sh b k] kx' ky' to_int_int sum.case fst_conv snd_conv
        if_P [OF c] e r1 r2 r3 r4 d iadd_item_single [OF i0] iadd_item_single [OF i1] n)
  then show ?thesis by (simp only: refined_def if_P [OF True] qx_def qy_def)
qed

lemma refined_length: "length (refined H W xs px py i kp) = length kp"
  by (simp add: refined_def)

lemma fold_refined_length:
  "length (fold (\<lambda>j. refined H W (xs j) (px j) (py j) (i j)) js kp) = length kp"
  by (induction js arbitrary: kp) (simp_all add: refined_length)

lemma fold_nested:
  "fold (\<lambda>b. fold (\<lambda>k. u (b * K + k)) [0..<K]) [0..<B] s = fold u [0..<B * K] s"
proof (induction B)
  case 0
  then show ?case by simp
next
  case (Suc B)
  have "[0..<B * K + K] = [0..<B * K] @ [B * K..<B * K + K]"
    by (rule upt_add_eq_append) simp
  moreover have "[B * K..<B * K + K] = map (\<lambda>k. B * K + k) [0..<K]"
    by (simp add: map_add_upt add.commute)
  moreover have "Suc B * K = B * K + K" by simp
  ultimately have "[0..<Suc B * K] = [0..<B * K] @ map (\<lambda>k. B * K + k) [0..<K]"
    by (simp only:)
  then show ?case using Suc by (simp add: fold_map comp_def del: mult_Suc)
qed

lemma fold_refined_nth:
  fixes xs :: "nat \<Rightarrow> fval list" and H W :: nat and px py :: "nat \<Rightarrow> int"
  defines "u \<equiv> (\<lambda>j. refined H W (xs j) (px j) (py j) (3 * j))"
  assumes "m \<le> N" and "length kp = 3 * N" and "j < N"
  shows "fold u [0..<m] kp ! (3 * j) = (if j < m then refined H W (xs j) (px j) (py j) 0 [kp ! (3 * j), kp ! (3 * j + 1)] ! 0 else kp ! (3 * j))
       \<and> fold u [0..<m] kp ! (3 * j + 1) = (if j < m then refined H W (xs j) (px j) (py j) 0 [kp ! (3 * j), kp ! (3 * j + 1)] ! 1 else kp ! (3 * j + 1))
       \<and> fold u [0..<m] kp ! (3 * j + 2) = kp ! (3 * j + 2)"
  using assms(2)
proof (induction m)
  case 0
  then show ?case by simp
next
  case (Suc m)
  let ?r = "fold u [0..<m] kp"
  have len: "length ?r = 3 * N" unfolding u_def using assms(3) by (simp add: fold_refined_length)
  have IH: "?r ! (3 * j) = (if j < m then refined H W (xs j) (px j) (py j) 0 [kp ! (3 * j), kp ! (3 * j + 1)] ! 0 else kp ! (3 * j))"
     "?r ! (3 * j + 1) = (if j < m then refined H W (xs j) (px j) (py j) 0 [kp ! (3 * j), kp ! (3 * j + 1)] ! 1 else kp ! (3 * j + 1))"
     "?r ! (3 * j + 2) = kp ! (3 * j + 2)"
    using Suc by simp_all
  have step: "fold u [0..<Suc m] kp = refined H W (xs m) (px m) (py m) (3 * m) ?r"
    by (simp add: u_def)
  show ?case
  proof (cases "j = m")
    case True
    have m: "3 * m + 1 < length ?r" using len Suc.prems by simp
    show ?thesis unfolding step using True IH m
      by (simp add: refined_def)
  next
    case False
    then have ne: "3 * m \<noteq> 3 * j" "3 * m \<noteq> 3 * j + 1" "3 * m \<noteq> 3 * j + 2"
      "3 * m + 1 \<noteq> 3 * j" "3 * m + 1 \<noteq> 3 * j + 1" "3 * m + 1 \<noteq> 3 * j + 2" by presburger+
    have same: "refined H W (xs m) (px m) (py m) (3 * m) ?r ! p = ?r ! p"
      if "3 * m \<noteq> p" "3 * m + 1 \<noteq> p" for p
      using that by (simp add: refined_def)
    show ?thesis unfolding step using False IH ne by (simp add: same)
  qed
qed

lemma keys_x_fin:
  "0 < W \<Longrightarrow>
   fmul (idx_mod z W) (score_mask s) = Fin (real_of_int (if fgt s (Fin 0) then z mod int W else 0))"
  by (simp add: idx_mod_def score_mask_def)

lemma keys_y_fin:
  "0 < W \<Longrightarrow>
   fmul (idx_floordiv z W) (score_mask s)
   = Fin (real_of_int (if fgt s (Fin 0) then astype_float32 (z div int W) else 0))"
  by (simp add: idx_floordiv_def score_mask_def)

lemma concat3_maps:
  "concat3 (map f [0..<N]) (map g [0..<N]) (map h [0..<N]) = concat (map (\<lambda>j. [f j, g j, h j]) [0..<N])"
  by (simp add: concat3_def zip_map_map zip_same_conv_map comp_def)

lemma concat_triples:
  "length (concat (map (\<lambda>j. [f j, g j, h j]) [0..<N])) = 3 * N \<and>
   (\<forall>j<N. concat (map (\<lambda>j. [f j, g j, h j]) [0..<N]) ! (3 * j) = f j \<and>
           concat (map (\<lambda>j. [f j, g j, h j]) [0..<N]) ! (3 * j + 1) = g j \<and>
           concat (map (\<lambda>j. [f j, g j, h j]) [0..<N]) ! (3 * j + 2) = h j)"
proof (induction N)
  case 0
  then show ?case by simp
next
  case (Suc N)
  let ?c = "concat (map (\<lambda>j. [f j, g j, h j]) [0..<N])"
  have len: "length ?c = 3 * N" using Suc by simp
  have app: "concat (map (\<lambda>j. [f j, g j, h j]) [0..<Suc N]) = ?c @ [f N, g N, h N]" by simp
  show ?case
  proof (intro conjI allI impI)
    show "length (concat (map (\<lambda>j. [f j, g j, h j]) [0..<Suc N])) = 3 * Suc N"
      unfolding app using len by simp
  next
    fix j assume j: "j < Suc N"
    show "concat (map (\<lambda>j. [f j, g j, h j]) [0..<Suc N]) ! (3 * j) = f j"
    proof (cases "j = N")
      case True then show ?thesis unfolding app using len by (simp add: nth_append)
    next
      case False
      then have "j < N" using j by simp
      then show ?thesis unfolding app using len Suc by (simp add: nth_append)
    qed
    show "concat (map (\<lambda>j. [f j, g j, h j]) [0..<Suc N]) ! (3 * j + 1) = g j"
    proof (cases "j = N")
      case True then show ?thesis unfolding app using len by (simp add: nth_append)
    next
      case False
      then have "j < N" using j by simp
      then show ?thesis unfolding app using len Suc by (simp add: nth_append)
    qed
    show "concat (map (\<lambda>j. [f j, g j, h j]) [0..<Suc N]) ! (3 * j + 2) = h j"
    proof (cases "j = N")
      case True then show ?thesis unfolding app using len by (simp add: nth_append)
    next
      case False
      then have "j < N" using j by simp
      then show ?thesis unfolding app using len Suc by (simp add: nth_append)
    qed
  qed
qed

lemma infer_dim_ok: "0 < B \<Longrightarrow> 0 < K \<Longrightarrow> infer_dim B K (prod_list [B, K, H, W]) = Inr (H * W)"
  by (simp add: infer_dim_def)

lemma slot_decoded_refined:
  fixes xs :: "fval list" and W :: nat
  defines "px \<equiv> (if fgt (amax_row xs) (Fin 0) then astype_float32 (F_argmax xs) mod int W else 0)"
    and "py \<equiv> (if fgt (amax_row xs) (Fin 0)
                 then astype_float32 (astype_float32 (F_argmax xs) div int W) else 0)"
  shows "slot_decoded H W xs =
         [refined H W xs px py 0 [Fin (real_of_int px), Fin (real_of_int py)] ! 0,
          refined H W xs px py 0 [Fin (real_of_int px), Fin (real_of_int py)] ! 1,
          amax_row xs]"
  by (simp add: slot_decoded_def refined_def px_def py_def Let_def)

section \<open>The decoder on a well-formed heatmap\<close>

lemma inner_loop:
  assumes sh: "shape a = [B, K, H, W]" and va: "valid_array a" and b: "b < B"
    and kx: "\<And>j. j < B * K \<Longrightarrow> keys_x ! j = Fin (real_of_int (px j))"
    and ky: "\<And>j. j < B * K \<Longrightarrow> keys_y ! j = Fin (real_of_int (py j))"
    and l: "length kp = 3 * (B * K)"
  shows "for_each [0..<K] (refine (H, W) K a keys_x keys_y b) kp
         = Inr (fold (\<lambda>k. refined H W (hm_slice a b k) (px (b * K + k)) (py (b * K + k)) (3 * (b * K + k))) [0..<K] kp)
       \<and> length (fold (\<lambda>k. refined H W (hm_slice a b k) (px (b * K + k)) (py (b * K + k)) (3 * (b * K + k))) [0..<K] kp) = 3 * (B * K)"
proof (rule for_each_Inr [where P = "\<lambda>kp. length kp = 3 * (B * K)"])
  show "length kp = 3 * (B * K)" by (rule l)
next
  fix k and kp' :: "fval list"
  assume kin: "k \<in> set [0..<K]" and l': "length kp' = 3 * (B * K)"
  have k: "k < K" using kin by simp
  have j: "b * K + k < B * K" using b k by (rule slot_index_bound)
  have "refine (H, W) K a keys_x keys_y b k kp'
        = Inr (refined H W (hm_slice a b k) (px (b * K + k)) (py (b * K + k)) (3 * (b * K + k)) kp')"
    using sh va b k kx [OF j] ky [OF j] l' by (rule refine_ok)
  then show "refine (H, W) K a keys_x keys_y b k kp'
             = Inr (refined H W (hm_slice a b k) (px (b * K + k)) (py (b * K + k)) (3 * (b * K + k)) kp')
           \<and> length (refined H W (hm_slice a b k) (px (b * K + k)) (py (b * K + k)) (3 * (b * K + k)) kp') = 3 * (B * K)"
    using l' by (simp add: refined_length)
qed

lemma loops_ok:
  assumes sh: "shape a = [B, K, H, W]" and va: "valid_array a"
    and kx: "\<And>j. j < B * K \<Longrightarrow> keys_x ! j = Fin (real_of_int (px j))"
    and ky: "\<And>j. j < B * K \<Longrightarrow> keys_y ! j = Fin (real_of_int (py j))"
    and xs: "\<And>b k. hm_slice a b k = xs (b * K + k)"
    and l: "length kp = 3 * (B * K)"
  shows "for_each [0..<B] (\<lambda>b. for_each [0..<K] (refine (H, W) K a keys_x keys_y b)) kp
         = Inr (fold (\<lambda>j. refined H W (xs j) (px j) (py j) (3 * j)) [0..<B * K] kp)"
proof -
  let ?u = "\<lambda>j. refined H W (xs j) (px j) (py j) (3 * j)"
  have "for_each [0..<B] (\<lambda>b. for_each [0..<K] (refine (H, W) K a keys_x keys_y b)) kp
        = Inr (fold (\<lambda>b. fold (\<lambda>k. ?u (b * K + k)) [0..<K]) [0..<B] kp)
      \<and> length (fold (\<lambda>b. fold (\<lambda>k. ?u (b * K + k)) [0..<K]) [0..<B] kp) = 3 * (B * K)"
  proof (rule for_each_Inr [where P = "\<lambda>kp. length kp = 3 * (B * K)"])
    show "length kp = 3 * (B * K)" by (rule l)
  next
    fix b and kp' :: "fval list"
    assume bin: "b \<in> set [0..<B]" and l': "length kp' = 3 * (B * K)"
    have b: "b < B" using bin by simp
    show "for_each [0..<K] (refine (H, W) K a keys_x keys_y b) kp'
          = Inr (fold (\<lambda>k. ?u (b * K + k)) [0..<K] kp')
        \<and> length (fold (\<lambda>k. ?u (b * K + k)) [0..<K] kp') = 3 * (B * K)"
      using inner_loop [OF sh va b kx ky l'] by (simp only: xs)
  qed
  then show ?thesis using fold_nested [of ?u K B kp] by simp
qed

lemma decode_ok:
  assumes ok: "heatmap_ok a B K H W" and wd: "W < 65536"
  shows "\<exists>kp. decode (H, W) K a = Inr \<lparr>shape = [B, K, 3], data = kp\<rparr> \<and> length kp = 3 * (B * K) \<and>
           (\<forall>b<B. \<forall>k<K. [kp ! (3 * (b * K + k)), kp ! (3 * (b * K + k) + 1), kp ! (3 * (b * K + k) + 2)]
                          = slot_decoded H W (hm_slice a b k))"
proof -
  have sh: "shape a = [B, K, H, W]" and va: "valid_array a"
    and pos: "0 < B" "0 < K" "0 < H" "0 < W"
    using ok by (simp_all add: heatmap_ok_def)
  define N where "N = B * K"
  define n where "n = H * W"
  define xs :: "nat \<Rightarrow> fval list" where "xs = (\<lambda>j. take n (drop (j * n) (data a)))"
  define sc where "sc = (\<lambda>j. amax_row (xs j))"
  define px where "px = (\<lambda>j. if fgt (sc j) (Fin 0) then astype_float32 (F_argmax (xs j)) mod int W else 0)"
  define py where "py = (\<lambda>j. if fgt (sc j) (Fin 0)
                               then astype_float32 (astype_float32 (F_argmax (xs j)) div int W) else 0)"
  define keys_x where "keys_x = map (\<lambda>j. Fin (real_of_int (px j))) [0..<N]"
  define keys_y where "keys_y = map (\<lambda>j. Fin (real_of_int (py j))) [0..<N]"
  define kp0 where "kp0 = concat (map (\<lambda>j. [Fin (real_of_int (px j)), Fin (real_of_int (py j)), sc j]) [0..<N])"
  define kp where "kp = fold (\<lambda>j. refined H W (xs j) (px j) (py j) (3 * j)) [0..<N] kp0"
  have npos: "n \<noteq> 0" using pos by (simp add: n_def)
  have slice: "hm_slice a b k = xs (b * K + k)" for b k
    using sh by (simp add: hm_slice_def xs_def n_def)
  have rws: "rows (B * K) n (data a) = map xs [0..<N]"
    by (simp add: rows_def xs_def N_def)
  have kxs: "map (\<lambda>(z, m). fmul (idx_mod z W) m)
               (zip (map (\<lambda>row. astype_float32 (F_argmax row)) (map xs [0..<N]))
                    (map score_mask (map amax_row (map xs [0..<N]))))
             = keys_x"
    using pos(4) by (simp add: keys_x_def px_def sc_def zip_map_map zip_same_conv_map comp_def keys_x_fin)
  have kys: "map (\<lambda>(z, m). fmul (idx_floordiv z W) m)
               (zip (map (\<lambda>row. astype_float32 (F_argmax row)) (map xs [0..<N]))
                    (map score_mask (map amax_row (map xs [0..<N]))))
             = keys_y"
    using pos(4) by (simp add: keys_y_def py_def sc_def zip_map_map zip_same_conv_map comp_def keys_y_fin)
  have scs: "map amax_row (map xs [0..<N]) = map sc [0..<N]"
    by (simp add: sc_def comp_def)
  have kp0_eq: "concat3 keys_x keys_y (map sc [0..<N]) = kp0"
    unfolding keys_x_def keys_y_def kp0_def by (rule concat3_maps)
  have cc: "F_concat (keys_dtype W) keys_x keys_y (map sc [0..<N]) = Inr kp0"
    using wd by (simp add: F_concat_def keys_dtype_def kp0_eq)
  have dec: "decode (H, W) K a =
        (case for_each [0..<B] (\<lambda>b. for_each [0..<K] (refine (H, W) K a keys_x keys_y b)) kp0 of
           Inl e \<Rightarrow> Inl e | Inr kp \<Rightarrow> Inr \<lparr>shape = [B, K, 3], data = kp\<rparr>)"
    apply (simp only: decode_def sh list.case infer_dim_ok [OF pos(1,2)] sum.case)
    apply (simp only: n_def [symmetric])
    apply (simp only: if_not_P [OF npos])
    apply (simp only: Let_def)
    apply (simp only: rws snd_conv)
    apply (simp only: kxs kys)
    apply (subst scs)
    apply (simp only: cc sum.case)
    done
  have tri: "length kp0 = 3 * N \<and>
     (\<forall>j<N. kp0 ! (3 * j) = Fin (real_of_int (px j)) \<and> kp0 ! (3 * j + 1) = Fin (real_of_int (py j)) \<and>
             kp0 ! (3 * j + 2) = sc j)"
    unfolding kp0_def by (rule concat_triples)
  have kp0_len: "length kp0 = 3 * (B * K)" using tri by (simp add: N_def)
  have kx: "keys_x ! j = Fin (real_of_int (px j))" if "j < B * K" for j
    using that by (simp add: keys_x_def N_def)
  have ky: "keys_y ! j = Fin (real_of_int (py j))" if "j < B * K" for j
    using that by (simp add: keys_y_def N_def)
  have "for_each [0..<B] (\<lambda>b. for_each [0..<K] (refine (H, W) K a keys_x keys_y b)) kp0 = Inr kp"
    unfolding kp_def N_def using sh va kx ky slice kp0_len by (rule loops_ok)
  then have res: "decode (H, W) K a = Inr \<lparr>shape = [B, K, 3], data = kp\<rparr>"
    unfolding dec by simp
  have len: "length kp = 3 * (B * K)"
    unfolding kp_def using kp0_len by (simp add: fold_refined_length)
  have slots: "[kp ! (3 * (b * K + k)), kp ! (3 * (b * K + k) + 1), kp ! (3 * (b * K + k) + 2)]
               = slot_decoded H W (hm_slice a b k)" if b: "b < B" and k: "k < K" for b k
  proof -
    define j where "j = b * K + k"
    have j: "j < N" unfolding N_def j_def using b k by (rule slot_index_bound)
    have init: "kp0 ! (3 * j) = Fin (real_of_int (px j))" "kp0 ! (3 * j + 1) = Fin (real_of_int (py j))"
      "kp0 ! (3 * j + 2) = sc j"
      using tri j by simp_all
    have "kp ! (3 * j) = refined H W (xs j) (px j) (py j) 0 [kp0 ! (3 * j), kp0 ! (3 * j + 1)] ! 0
        \<and> kp ! (3 * j + 1) = refined H W (xs j) (px j) (py j) 0 [kp0 ! (3 * j), kp0 ! (3 * j + 1)] ! 1
        \<and> kp ! (3 * j + 2) = kp0 ! (3 * j + 2)"
      using fold_refined_nth [of N N kp0 j H W xs px py] tri j by (simp add: kp_def)
    then have "[kp ! (3 * j), kp ! (3 * j + 1), kp ! (3 * j + 2)] = slot_decoded H W (xs j)"
      unfolding init slot_decoded_refined px_def py_def sc_def by simp
    then show ?thesis by (simp add: j_def slice)
  qed
  show ?thesis using res len slots by blast
qed

lemma kp_nth:
  "shape r = [B, K, 3] \<Longrightarrow> kp_x r b k = data r ! (3 * (b * K + k))"
  "shape r = [B, K, 3] \<Longrightarrow> kp_y r b k = data r ! (3 * (b * K + k) + 1)"
  "shape r = [B, K, 3] \<Longrightarrow> kp_score r b k = data r ! (3 * (b * K + k) + 2)"
  by (simp_all add: kp_x_def kp_y_def kp_score_def)

lemma decode_slot_decoded:
  assumes ok: "heatmap_ok a B K H W" and wd: "W < 65536" and b: "b < B" and k: "k < K"
  shows "\<exists>r. decode (H, W) K a = Inr r \<and> shape r = [B, K, 3] \<and> length (data r) = 3 * (B * K) \<and>
             [kp_x r b k, kp_y r b k, kp_score r b k] = slot_decoded H W (hm_slice a b k)"
proof -
  obtain kp where d: "decode (H, W) K a = Inr \<lparr>shape = [B, K, 3], data = kp\<rparr>"
    and l: "length kp = 3 * (B * K)"
    and s: "\<forall>b<B. \<forall>k<K. [kp ! (3 * (b * K + k)), kp ! (3 * (b * K + k) + 1), kp ! (3 * (b * K + k) + 2)]
                          = slot_decoded H W (hm_slice a b k)"
    using decode_ok [OF ok wd] by blast
  let ?r = "\<lparr>shape = [B, K, 3], data = kp\<rparr>"
  have "[kp_x ?r b k, kp_y ?r b k, kp_score ?r b k] = slot_decoded H W (hm_slice a b k)"
    using s b k by (simp add: kp_x_def kp_y_def kp_score_def)
  with d l show ?thesis by (intro exI [of _ ?r]) simp
qed

section \<open>Index arithmetic on slices of at most \<open>2 ^ 24\<close> entries\<close>

lemma cast_f32_small: "n < 2 ^ 24 \<Longrightarrow> cast_f32 n = n"
  by (simp add: cast_f32_def)

lemma astype_int32_small: "n < 2 ^ 31 \<Longrightarrow> astype_int32 n = int n"
  by (simp add: astype_int32_def Let_def)

lemma astype_float32_small: "\<bar>z\<bar> < 2 ^ 24 \<Longrightarrow> astype_float32 z = z"
proof -
  assume a: "\<bar>z\<bar> < 2 ^ 24"
  have n: "nat \<bar>z\<bar> < 2 ^ 24" using a by (simp add: nat_less_iff)
  show ?thesis
  proof (cases "z < 0")
    case True
    then have "nat (- z) < 2 ^ 24" using n by simp
    then show ?thesis using True by (simp add: astype_float32_def cast_f32_small)
  next
    case False
    then have "nat z < 2 ^ 24" using n by simp
    then show ?thesis using False by (simp add: astype_float32_def cast_f32_small)
  qed
qed

lemma argmax_scan_less: "mi < i \<Longrightarrow> argmax_scan mp mi i xs < i + length xs"
proof (induction xs arbitrary: mp mi i)
  case Nil
  then show ?case by simp
next
  case (Cons x xs)
  have a: "argmax_scan x i (Suc i) xs < Suc i + length xs" by (rule Cons.IH) simp
  have b: "argmax_scan mp mi (Suc i) xs < Suc i + length xs" using Cons.prems by (intro Cons.IH) simp
  show ?case using a b by simp
qed

lemma argmax_row_less: "xs \<noteq> [] \<Longrightarrow> argmax_row xs < length xs"
proof (cases xs)
  case Nil
  assume "xs \<noteq> []" with Nil show ?thesis by simp
next
  case (Cons x rest)
  have "argmax_scan x 0 1 rest < 1 + length rest" by (rule argmax_scan_less) simp
  then show ?thesis using Cons by (simp add: argmax_row_def)
qed

lemma quarter_cases:
  "quarter u v = NaN \<or> quarter u v = Fin 0 \<or> quarter u v = Fin (1 / 4) \<or> quarter u v = Fin (- (1 / 4))"
proof (cases "fsub u v")
  case (Fin d)
  then show ?thesis by (simp add: quarter_def sgn_real_def)
qed (simp_all add: quarter_def)

lemma store_f32_quarters:
  assumes "c < 2 ^ 22"
  shows "store_f32 (Fin (real c)) = Fin (real c)"
    "store_f32 (Fin (real c + 1 / 4)) = Fin (real c + 1 / 4)"
    "1 \<le> c \<Longrightarrow> store_f32 (Fin (real c - 1 / 4)) = Fin (real c - 1 / 4)"
proof -
  have e0: "4 * real c = real_of_int (4 * int c)" by simp
  have e1: "4 * (real c + 1 / 4) = real_of_int (4 * int c + 1)" by simp
  have e2: "4 * (real c - 1 / 4) = real_of_int (4 * int c - 1)" by simp
  have f0: "\<lfloor>4 * real c\<rfloor> = 4 * int c" unfolding e0 by (rule floor_of_int)
  have f1: "\<lfloor>4 * (real c + 1 / 4)\<rfloor> = 4 * int c + 1" unfolding e1 by (rule floor_of_int)
  have f2: "\<lfloor>4 * (real c - 1 / 4)\<rfloor> = 4 * int c - 1" unfolding e2 by (rule floor_of_int)
  have b: "4 * int c + 1 < 2 ^ 24" using assms by simp
  have a0: "astype_float32 (4 * int c) = 4 * int c" using b by (intro astype_float32_small) simp
  have a1: "astype_float32 (4 * int c + 1) = 4 * int c + 1" using b by (intro astype_float32_small) simp
  have st: "store_f32 (Fin r) = Fin (real_of_int (astype_float32 \<lfloor>4 * r\<rfloor>) / 4)" for r
    by (simp only: store_f32_def fval.case)
  have "store_f32 (Fin (real c)) = Fin (real_of_int (4 * int c) / 4)"
    by (simp only: st f0 a0)
  then show "store_f32 (Fin (real c)) = Fin (real c)" by simp
  have "store_f32 (Fin (real c + 1 / 4)) = Fin (real_of_int (4 * int c + 1) / 4)"
    by (simp only: st f1 a1)
  then show "store_f32 (Fin (real c + 1 / 4)) = Fin (real c + 1 / 4)"
    by (simp add: add_divide_distrib)
  assume "1 \<le> c"
  then have a2: "astype_float32 (4 * int c - 1) = 4 * int c - 1"
    using b by (intro astype_float32_small) simp
  have "store_f32 (Fin (real c - 1 / 4)) = Fin (real_of_int (4 * int c - 1) / 4)"
    by (simp only: st f2 a2)
  then show "store_f32 (Fin (real c - 1 / 4)) = Fin (real c - 1 / 4)"
    by (simp add: diff_divide_distrib)
qed

lemma store_f32_exact:
  assumes "1 \<le> c" and "c < 2 ^ 22"
  shows "store_f32 (fadd (Fin (real c)) (quarter u v)) = fadd (Fin (real c)) (quarter u v)"
  using quarter_cases [of u v] store_f32_quarters [OF assms(2)] assms(1)
  by (auto simp: store_f32_def)

lemma hm_entry_slice:
  assumes ok: "heatmap_ok a B K H W" and b: "b < B" and k: "k < K" and r: "r < H" and c: "c < W"
  shows "hm_slice a b k ! (r * W + c) = hm_entry a b k r c"
proof -
  have sh: "shape a = [B, K, H, W]" and va: "valid_array a"
    using ok by (simp_all add: heatmap_ok_def)
  have len: "length (data a) = (B * K) * (H * W)" using sh va by (simp add: valid_array_def)
  have j: "b * K + k < B * K" using b k by (rule slot_index_bound)
  have p: "r * W + c < H * W" using r c by (rule chunk_bound)
  have "take (H * W) (drop ((b * K + k) * (H * W)) (data a)) ! (r * W + c)
        = data a ! ((b * K + k) * (H * W) + (r * W + c))"
    using j p len by (rule chunk_nth)
  moreover have "(b * K + k) * (H * W) + (r * W + c) = ((b * K + k) * H + r) * W + c"
    by (simp add: algebra_simps)
  ultimately show ?thesis using sh by (simp add: hm_slice_def hm_entry_def)
qed

lemma slice_length:
  assumes ok: "heatmap_ok a B K H W" and b: "b < B" and k: "k < K"
  shows "length (hm_slice a b k) = H * W" "hm_slice a b k \<noteq> []"
proof -
  have sh: "shape a = [B, K, H, W]" and va: "valid_array a" and pos: "0 < H" "0 < W"
    using ok by (simp_all add: heatmap_ok_def)
  show l: "length (hm_slice a b k) = H * W" using sh va b k by (rule hm_slice_length)
  show "hm_slice a b k \<noteq> []" using l pos by auto
qed

lemma finite_not_nan: "list_all is_finite xs \<Longrightarrow> list_all (\<lambda>x. \<not> is_nan x) xs"
proof -
  have "is_finite x \<Longrightarrow> \<not> is_nan x" for x by (cases x) simp_all
  then show "list_all is_finite xs \<Longrightarrow> list_all (\<lambda>x. \<not> is_nan x) xs"
    by (auto simp: list_all_iff)
qed

lemma peak_position:
  assumes "first_max xs (row * W + col)" and "col < W" and "list_all (\<lambda>x. \<not> is_nan x) xs"
  shows "argmax_row xs mod W = col" "argmax_row xs div W = row" "amax_row xs = xs ! (row * W + col)"
proof -
  have ne: "xs \<noteq> []" using assms(1) by (auto simp: first_max_def)
  have "first_max xs (argmax_row xs)" using ne assms(3) by (rule argmax_row_first_max)
  then have eq: "argmax_row xs = row * W + col" using assms(1) by (rule first_max_unique)
  show "argmax_row xs mod W = col" using eq assms(2) by simp
  show "argmax_row xs div W = row" using eq assms(2) by simp
  show "amax_row xs = xs ! (row * W + col)" using amax_row_argmax [OF ne] eq by simp
qed

lemma quarter_fin: "quarter (Fin u) (Fin v) = Fin (1 / 4 * sign (u - v))"
  by (simp add: quarter_def fsub_def sign_def sgn_real_def)

lemma finite_rv: "is_finite v \<Longrightarrow> v = Fin (rv v)"
  by (cases v) simp_all


lemma peak_small:
  assumes ne: "xs \<noteq> []" and len: "length xs \<le> 2 ^ 24"
  shows "astype_float32 (F_argmax xs) mod int W = int (argmax_row xs mod W)"
    and "astype_float32 (astype_float32 (F_argmax xs) div int W) = int (argmax_row xs div W)"
proof -
  have i: "argmax_row xs < 2 ^ 24" using argmax_row_less [OF ne] len by simp
  then have "argmax_row xs < 2 ^ 31" by simp
  then have "F_argmax xs = int (argmax_row xs)" unfolding F_argmax_def by (rule astype_int32_small)
  moreover have "astype_float32 (int (argmax_row xs)) = int (argmax_row xs)"
    using i by (intro astype_float32_small) simp
  ultimately have z: "astype_float32 (F_argmax xs) = int (argmax_row xs)" by simp
  show "astype_float32 (F_argmax xs) mod int W = int (argmax_row xs mod W)"
    unfolding z by (simp add: zmod_int)
  have "argmax_row xs div W < 2 ^ 24" by (rule le_less_trans [OF div_le_dividend i])
  then have "astype_float32 (int (argmax_row xs div W)) = int (argmax_row xs div W)"
    by (intro astype_float32_small) simp
  then show "astype_float32 (astype_float32 (F_argmax xs) div int W) = int (argmax_row xs div W)"
    unfolding z by (simp add: zdiv_int)
qed

lemma slot_decoded_gated:
  "\<not> fgt (amax_row xs) (Fin 0) \<Longrightarrow> slot_decoded H W xs = [Fin 0, Fin 0, amax_row xs]"
  by (simp add: slot_decoded_def Let_def)

lemma slot_decoded_score: "slot_decoded H W xs ! 2 = amax_row xs"
  by (simp add: slot_decoded_def Let_def)

lemma slot_decoded_small:
  assumes ne: "xs \<noteq> []" and len: "length xs = H * W" and sz: "H * W \<le> 2 ^ 24"
  shows "slot_decoded H W xs = slot_of H W xs"
proof -
  define col where "col = argmax_row xs mod W"
  define row where "row = argmax_row xs div W"
  have l: "length xs \<le> 2 ^ 24" using len sz by simp
  have pk: "astype_float32 (F_argmax xs) mod int W = int col"
    "astype_float32 (astype_float32 (F_argmax xs) div int W) = int row"
    unfolding col_def row_def using ne l by (rule peak_small)+
  show ?thesis
  proof (cases "fgt (amax_row xs) (Fin 0)")
    case False
    have "slot_of H W xs = [Fin 0, Fin 0, amax_row xs]"
      by (simp only: slot_of_def Let_def if_not_P [OF False])
    then show ?thesis using slot_decoded_gated [OF False] by simp
  next
    case True
    show ?thesis
    proof (cases "1 < col \<and> col + 1 < W \<and> 1 < row \<and> row + 1 < H")
      case nint: False
      then have ni: "\<not> (1 < int col \<and> int col + 1 < int W \<and> 1 < int row \<and> int row + 1 < int H)"
        by linarith
      have "slot_decoded H W xs = [Fin (real_of_int (int col)), Fin (real_of_int (int row)), amax_row xs]"
        by (simp only: slot_decoded_def Let_def pk if_P [OF True] if_not_P [OF ni])
      moreover have "slot_of H W xs = [Fin (real col), Fin (real row), amax_row xs]"
        unfolding col_def row_def
        by (simp only: slot_of_def Let_def if_P [OF True] if_not_P [OF nint [unfolded col_def row_def]])
      ultimately show ?thesis by simp
    next
      case int: True
      then have ii: "1 < int col \<and> int col + 1 < int W \<and> 1 < int row \<and> int row + 1 < int H"
        by linarith
      have four: "4 \<le> H" "4 \<le> W" using int by linarith+
      have p: "(2::nat) ^ 24 = 4 * 2 ^ 22" by simp
      have "4 * W \<le> H * W" using four(1) by (rule mult_le_mono1)
      then have "4 * W \<le> 4 * 2 ^ 22" using sz unfolding p by (rule order_trans)
      then have w: "W \<le> 2 ^ 22" by (simp only: mult_le_cancel1)
      have "H * 4 \<le> H * W" using four(2) by (rule mult_le_mono2)
      then have "H * 4 \<le> 4 * 2 ^ 22" using sz unfolding p by (rule order_trans)
      then have "4 * H \<le> 4 * 2 ^ 22" by (simp only: mult.commute)
      then have h: "H \<le> 2 ^ 22" by (simp only: mult_le_cancel1)
      note w h
      then have small: "col < 2 ^ 22" "row < 2 ^ 22" using int by linarith+
      have one: "1 \<le> col" "1 \<le> row" using int by linarith+
      have dec: "slot_decoded H W xs =
          [store_f32 (fadd (Fin (real_of_int (int col)))
             (quarter (xs ! (nat (int row) * W + (nat (int col) + 1)))
                      (xs ! (nat (int row) * W + (nat (int col) - 1))))),
           store_f32 (fadd (Fin (real_of_int (int row)))
             (quarter (xs ! ((nat (int row) + 1) * W + nat (int col)))
                      (xs ! ((nat (int row) - 1) * W + nat (int col))))),
           amax_row xs]"
        by (simp only: slot_decoded_def Let_def pk if_P [OF True] if_P [OF ii])
      have spec: "slot_of H W xs =
          [fadd (Fin (real col)) (quarter (xs ! (row * W + (col + 1))) (xs ! (row * W + (col - 1)))),
           fadd (Fin (real row)) (quarter (xs ! ((row + 1) * W + col)) (xs ! ((row - 1) * W + col))),
           amax_row xs]"
        unfolding col_def row_def
        by (simp only: slot_of_def Let_def if_P [OF True] if_P [OF int [unfolded col_def row_def]])
      show ?thesis unfolding dec spec
        by (simp only: nat_int of_int_of_nat_eq store_f32_exact [OF one(1) small(1)]
            store_f32_exact [OF one(2) small(2)])
    qed
  qed
qed

lemma decode_slot:
  assumes ok: "heatmap_ok a B K H W" and wd: "W < 65536" and sz: "H * W \<le> 2 ^ 24"
    and b: "b < B" and k: "k < K"
  shows "\<exists>r. decode (H, W) K a = Inr r \<and> shape r = [B, K, 3] \<and> length (data r) = 3 * (B * K) \<and>
             [kp_x r b k, kp_y r b k, kp_score r b k] = slot_of H W (hm_slice a b k)"
proof -
  have "slot_decoded H W (hm_slice a b k) = slot_of H W (hm_slice a b k)"
    using slice_length(2) [OF ok b k] slice_length(1) [OF ok b k] sz by (rule slot_decoded_small)
  then show ?thesis using decode_slot_decoded [OF ok wd b k] by simp
qed

section \<open>Heatmaps beyond the range of float32\<close>

lemma decode_wide:
  assumes ok: "heatmap_ok a B K H W" and wd: "65536 \<le> W"
  shows "decode (H, W) K a = Inl ConcatError"
proof -
  have sh: "shape a = [B, K, H, W]" and pos: "0 < B" "0 < K" "0 < H" "0 < W"
    using ok by (simp_all add: heatmap_ok_def)
  have npos: "H * W \<noteq> 0" using pos by simp
  have kd: "keys_dtype W = Float64" using wd by (simp add: keys_dtype_def)
  have fc: "F_concat Float64 kx ky sc = Inl ConcatError" for kx ky sc
    by (simp add: F_concat_def)
  show ?thesis
    by (simp only: decode_def sh list.case infer_dim_ok [OF pos(1,2)] sum.case if_not_P [OF npos]
        Let_def snd_conv kd fc)
qed

lemma wide_hm_ok: "heatmap_ok (wide_hm v) 1 1 1 65536"
  by (simp add: heatmap_ok_def wide_hm_def valid_array_def)


lemma spike_ok:
  assumes "i < H * W"
  shows "heatmap_ok (spike H W i) 1 1 H W"
proof -
  have "0 < H * W" by (rule le_less_trans [OF le0 assms])
  then have "0 < H" "0 < W" by simp_all
  then show ?thesis by (simp add: heatmap_ok_def spike_def valid_array_def)
qed

lemma spike_slice: "hm_slice (spike H W i) 0 0 = (replicate (H * W) (Fin 0))[i := Fin 1]"
  by (simp add: hm_slice_def spike_def)

lemma spike_entry:
  "r * W + c < H * W \<Longrightarrow> hm_entry (spike H W (r * W + c)) 0 0 r c = Fin 1"
  by (simp add: hm_entry_def spike_def)

lemma spike_finite: "list_all is_finite ((replicate n (Fin 0))[i := Fin 1])"
proof -
  have "set ((replicate n (Fin 0))[i := Fin 1]) \<subseteq> insert (Fin 1) (set (replicate n (Fin 0)))"
    by (rule set_update_subset_insert)
  then show ?thesis by (auto simp: list_all_iff)
qed

lemma spike_first_max:
  assumes "i < n"
  shows "first_max ((replicate n (Fin 0))[i := Fin 1]) i"
proof -
  let ?xs = "(replicate n (Fin 0))[i := Fin 1]"
  have at: "?xs ! i = Fin 1" using assms by simp
  have "set ?xs \<subseteq> insert (Fin 1) (set (replicate n (Fin 0)))"
    by (rule set_update_subset_insert)
  then have le: "list_all (\<lambda>x. fle x (Fin 1)) ?xs" by (auto simp: list_all_iff)
  have "take i ?xs = replicate i (Fin 0)" using assms by simp
  then have gt: "list_all (\<lambda>x. fgt (Fin 1) x) (take i ?xs)" by (simp add: list_all_iff)
  show ?thesis unfolding first_max_def at using assms le gt by simp
qed

lemma spike_peak:
  assumes "i < n"
  shows "argmax_row ((replicate n (Fin 0))[i := Fin 1]) = i"
    and "amax_row ((replicate n (Fin 0))[i := Fin 1]) = Fin 1"
proof -
  let ?xs = "(replicate n (Fin 0))[i := Fin 1]"
  have ne: "?xs \<noteq> []" using assms by auto
  have nn: "list_all (\<lambda>x. \<not> is_nan x) ?xs" using spike_finite by (rule finite_not_nan)
  have "first_max ?xs (argmax_row ?xs)" using ne nn by (rule argmax_row_first_max)
  then show a: "argmax_row ?xs = i" using spike_first_max [OF assms] by (rule first_max_unique)
  show "amax_row ?xs = Fin 1" using amax_row_argmax [OF ne] a assms by simp
qed

text \<open>The decoder on a heatmap of one slice.\<close>

lemma decode_single:
  assumes ok: "heatmap_ok a 1 1 H W" and wd: "W < 65536"
  shows "decode (H, W) 1 a = Inr \<lparr>shape = [1, 1, 3], data = slot_decoded H W (hm_slice a 0 0)\<rparr>"
proof -
  obtain kp where d: "decode (H, W) 1 a = Inr \<lparr>shape = [1, 1, 3], data = kp\<rparr>"
    and l: "length kp = 3 * (1 * 1)"
    and s: "\<forall>b<1. \<forall>k<1. [kp ! (3 * (b * 1 + k)), kp ! (3 * (b * 1 + k) + 1), kp ! (3 * (b * 1 + k) + 2)]
                          = slot_decoded H W (hm_slice a b k)"
    using decode_ok [OF ok wd] by blast
  have "[kp ! (3 * (0 * 1 + 0)), kp ! (3 * (0 * 1 + 0) + 1), kp ! (3 * (0 * 1 + 0) + 2)]
        = slot_decoded H W (hm_slice a 0 0)"
    by (rule s [rule_format]) simp_all
  then have s0: "[kp ! 0, kp ! 1, kp ! 2] = slot_decoded H W (hm_slice a 0 0)"
    by (simp add: numeral_2_eq_2)
  have "kp = [kp ! 0, kp ! 1, kp ! 2]"
    using l by (intro nth_equalityI) (auto simp: less_Suc_eq numeral_eq_Suc nth_Cons')
  then have "kp = slot_decoded H W (hm_slice a 0 0)" using s0 by simp
  then show ?thesis using d by simp
qed

text \<open>
  The decoder on a spike in a heatmap of width at most three (no position is
  interior): the coordinates are those of the float32 nearest to the flat index.
\<close>

lemma decode_spike:
  assumes i: "i < H * W" and w3: "W \<le> 3" and i31: "i < 2 ^ 31"
  shows "decode (H, W) 1 (spike H W i)
         = Inr \<lparr>shape = [1, 1, 3],
                data = [Fin (real (cast_f32 i mod W)), Fin (real (cast_f32 (cast_f32 i div W))), Fin 1]\<rparr>"
proof -
  let ?xs = "(replicate (H * W) (Fin 0))[i := Fin 1]"
  have wd: "W < 65536" using w3 by simp
  have d: "decode (H, W) 1 (spike H W i) = Inr \<lparr>shape = [1, 1, 3], data = slot_decoded H W ?xs\<rparr>"
    using decode_single [OF spike_ok [OF i] wd] by (simp only: spike_slice)
  have am: "argmax_row ?xs = i" "amax_row ?xs = Fin 1" using i by (rule spike_peak)+
  have z: "astype_float32 (F_argmax ?xs) = int (cast_f32 i)"
    unfolding F_argmax_def am using i31 by (simp add: astype_int32_small astype_float32_def)
  have pos: "fgt (Fin 1) (Fin 0)" by simp
  have col: "int (cast_f32 i) mod int W = int (cast_f32 i mod W)" by (simp add: zmod_int)
  have row: "astype_float32 (int (cast_f32 i) div int W) = int (cast_f32 (cast_f32 i div W))"
    by (simp add: astype_float32_def zdiv_int [symmetric] del: of_nat_div)
  have ni: "\<not> (1 < int (cast_f32 i mod W) \<and> int (cast_f32 i mod W) + 1 < int W \<and>
              1 < int (cast_f32 (cast_f32 i div W)) \<and> int (cast_f32 (cast_f32 i div W)) + 1 < int H)"
    using w3 by linarith
  have "slot_decoded H W ?xs
        = [Fin (real_of_int (int (cast_f32 i mod W))),
           Fin (real_of_int (int (cast_f32 (cast_f32 i div W)))), Fin 1]"
    by (simp only: slot_decoded_def Let_def z col row am if_P [OF pos] if_not_P [OF ni])
  then show ?thesis unfolding d by simp
qed

lemma const_row:
  assumes "0 < n" and "\<not> is_nan v"
  shows "argmax_row (replicate n v) = 0" and "amax_row (replicate n v) = v"
proof -
  let ?xs = "replicate n v"
  have ne: "?xs \<noteq> []" using assms(1) by simp
  have nn: "list_all (\<lambda>x. \<not> is_nan x) ?xs" using assms(2) by (simp add: list_all_iff)
  have "first_max ?xs 0" using assms by (simp add: first_max_def list_all_iff fle_refl)
  moreover have "first_max ?xs (argmax_row ?xs)" using ne nn by (rule argmax_row_first_max)
  ultimately show a: "argmax_row ?xs = 0" by (rule first_max_unique [symmetric])
  show "amax_row ?xs = v" using amax_row_argmax [OF ne] a assms(1) by simp
qed

text \<open>The record of the specification for the same spike.\<close>

lemma slot_of_spike:
  assumes i: "i < H * W" and w3: "W \<le> 3"
  shows "slot_of H W ((replicate (H * W) (Fin 0))[i := Fin 1])
         = [Fin (real (i mod W)), Fin (real (i div W)), Fin 1]"
proof -
  let ?xs = "(replicate (H * W) (Fin 0))[i := Fin 1]"
  have am: "argmax_row ?xs = i" "amax_row ?xs = Fin 1" using i by (rule spike_peak)+
  have pos: "fgt (Fin 1) (Fin 0)" by simp
  have ni: "\<not> (1 < i mod W \<and> i mod W + 1 < W \<and> 1 < i div W \<and> i div W + 1 < H)"
    using w3 by linarith
  show ?thesis by (simp only: slot_of_def Let_def am if_P [OF pos] if_not_P [OF ni])
qed

text \<open>
  The index \<open>2 ^ 31\<close> wraps around in int32, and row \<open>2 ^ 22 + 1\<close> plus a quarter
  is stored as the row itself.
\<close>

lemma astype_int32_wraps: "astype_int32 2147483648 = - 2147483648"
  by (simp add: astype_int32_def Let_def)

lemma store_f32_rounds: "store_f32 (Fin (4194305 + 1 / 4)) = Fin 4194305"
proof -
  have "4 * (4194305 + 1 / 4) = real_of_int 16777221" by simp
  then have "\<lfloor>4 * (4194305 + 1 / 4 :: real)\<rfloor> = 16777221" by (simp only: floor_of_int)
  moreover have "astype_float32 16777221 = 16777220"
    by (simp add: astype_float32_def cast_f32_def bits.simps Let_def)
  ultimately show ?thesis by (simp add: store_f32_def)
qed

lemma cast_f32_values:
  "cast_f32 16777217 = 16777216" "cast_f32 16777219 = 16777220" "cast_f32 16777216 = 16777216"
  "cast_f32 8388608 = 8388608" "cast_f32 8388610 = 8388610" "cast_f32 5592405 = 5592405"
  by (simp_all add: cast_f32_def bits.simps Let_def)

section \<open>Sub-pixel refinement\<close>

text \<open>
  Claim C1, amended. Let the heatmap be well formed, of width \<open>W < 65536\<close> and with
  at most \<open>2 ^ 24\<close> entries in a slice, and let the entries of slice \<open>(b, k)\<close> be
  finite. Let the first row-major maximum of the slice sit at \<open>(row, col)\<close> and be
  positive. If \<open>1 < col < W - 1\<close> and \<open>1 < row < H - 1\<close>, the decoder returns
  \<open>x = col + 0.25 * sign (hm[row, col + 1] - hm[row, col - 1])\<close> and
  \<open>y = row + 0.25 * sign (hm[row + 1, col] - hm[row - 1, col])\<close>; otherwise it returns
  exactly \<open>(col, row)\<close>.
\<close>

theorem subpixel_refinement:
  assumes ok: "heatmap_ok a B K H W" and wd: "W < 65536" and sz: "H * W \<le> 2 ^ 24"
    and b: "b < B" and k: "k < K"
    and fin: "list_all is_finite (hm_slice a b k)"
    and row: "row < H" and col: "col < W"
    and peak: "first_max (hm_slice a b k) (row * W + col)"
    and positive: "fgt (hm_entry a b k row col) (Fin 0)"
  shows "\<exists>r. decode (H, W) K a = Inr r \<and>
           kp_x r b k =
             (if (1 < col \<and> col < W - 1) \<and> (1 < row \<and> row < H - 1)
              then Fin (real col + 1 / 4 * sign (rv (hm_entry a b k row (col + 1)) - rv (hm_entry a b k row (col - 1))))
              else Fin (real col)) \<and>
           kp_y r b k =
             (if (1 < col \<and> col < W - 1) \<and> (1 < row \<and> row < H - 1)
              then Fin (real row + 1 / 4 * sign (rv (hm_entry a b k (row + 1) col) - rv (hm_entry a b k (row - 1) col)))
              else Fin (real row))"
proof -
  let ?xs = "hm_slice a b k"
  obtain r where d: "decode (H, W) K a = Inr r"
    and slot: "[kp_x r b k, kp_y r b k, kp_score r b k] = slot_of H W ?xs"
    using decode_slot [OF ok wd sz b k] by blast
  have nn: "list_all (\<lambda>x. \<not> is_nan x) ?xs" using fin by (rule finite_not_nan)
  have pk: "argmax_row ?xs mod W = col" "argmax_row ?xs div W = row"
    "amax_row ?xs = ?xs ! (row * W + col)"
    using peak col nn by (rule peak_position)+
  have sc: "amax_row ?xs = hm_entry a b k row col"
    using pk(3) hm_entry_slice [OF ok b k row col] by simp
  have pos: "fgt (amax_row ?xs) (Fin 0)" using positive sc by simp
  show ?thesis
  proof (cases "(1 < col \<and> col < W - 1) \<and> (1 < row \<and> row < H - 1)")
    case False
    then have nint: "\<not> (1 < col \<and> col + 1 < W \<and> 1 < row \<and> row + 1 < H)" by linarith
    have "slot_of H W ?xs = [Fin (real col), Fin (real row), amax_row ?xs]"
      by (simp only: slot_of_def Let_def pk(1,2) if_P [OF pos] if_not_P [OF nint])
    with slot have "kp_x r b k = Fin (real col)" "kp_y r b k = Fin (real row)" by simp_all
    with d show ?thesis unfolding if_not_P [OF False] by blast
  next
    case True
    then have int: "1 < col \<and> col + 1 < W \<and> 1 < row \<and> row + 1 < H" by linarith
    have lt: "col + 1 < W" "col - 1 < W" "row + 1 < H" "row - 1 < H" using int by linarith+
    have e: "?xs ! (row * W + (col + 1)) = hm_entry a b k row (col + 1)"
      "?xs ! (row * W + (col - 1)) = hm_entry a b k row (col - 1)"
      "?xs ! ((row + 1) * W + col) = hm_entry a b k (row + 1) col"
      "?xs ! ((row - 1) * W + col) = hm_entry a b k (row - 1) col"
      using hm_entry_slice [OF ok b k] row col lt by blast+
    have len: "length ?xs = H * W" using ok b k by (rule slice_length)
    have mem: "row * W + (col + 1) < length ?xs" "row * W + (col - 1) < length ?xs"
      "(row + 1) * W + col < length ?xs" "(row - 1) * W + col < length ?xs"
      unfolding len
      using chunk_bound [OF row lt(1)] chunk_bound [OF row lt(2)]
        chunk_bound [OF lt(3) col] chunk_bound [OF lt(4) col] by blast+
    have f: "is_finite (hm_entry a b k row (col + 1))" "is_finite (hm_entry a b k row (col - 1))"
      "is_finite (hm_entry a b k (row + 1) col)" "is_finite (hm_entry a b k (row - 1) col)"
      using fin mem e by (metis list_all_length)+
    have q: "quarter (hm_entry a b k row (col + 1)) (hm_entry a b k row (col - 1))
             = Fin (1 / 4 * sign (rv (hm_entry a b k row (col + 1)) - rv (hm_entry a b k row (col - 1))))"
      "quarter (hm_entry a b k (row + 1) col) (hm_entry a b k (row - 1) col)
             = Fin (1 / 4 * sign (rv (hm_entry a b k (row + 1) col) - rv (hm_entry a b k (row - 1) col)))"
      using f finite_rv quarter_fin by metis+
    have "slot_of H W ?xs =
          [fadd (Fin (real col)) (quarter (hm_entry a b k row (col + 1)) (hm_entry a b k row (col - 1))),
           fadd (Fin (real row)) (quarter (hm_entry a b k (row + 1) col) (hm_entry a b k (row - 1) col)),
           amax_row ?xs]"
      by (simp only: slot_of_def Let_def pk(1,2) if_P [OF pos] if_P [OF int] e)
    then have "slot_of H W ?xs =
          [Fin (real col + 1 / 4 * sign (rv (hm_entry a b k row (col + 1)) - rv (hm_entry a b k row (col - 1)))),
           Fin (real row + 1 / 4 * sign (rv (hm_entry a b k (row + 1) col) - rv (hm_entry a b k (row - 1) col))),
           amax_row ?xs]"
      unfolding q by simp
    with slot have
      "kp_x r b k = Fin (real col + 1 / 4 * sign (rv (hm_entry a b k row (col + 1)) - rv (hm_entry a b k row (col - 1))))"
      "kp_y r b k = Fin (real row + 1 / 4 * sign (rv (hm_entry a b k (row + 1) col) - rv (hm_entry a b k (row - 1) col)))"
      by simp_all
    with d show ?thesis unfolding if_P [OF True] by blast
  qed
qed

text \<open>The refinement example of the specification: \<open>x = 2.25\<close>, \<open>y = 2\<close>.\<close>

lemma ex5_ok: "heatmap_ok ex5 1 1 5 5"
  by (simp add: heatmap_ok_def ex5_def valid_array_def)

lemma ex5_finite: "list_all is_finite (hm_slice ex5 0 0)"
  by (simp add: hm_slice_def ex5_def)

lemma ex5_peak: "first_max (hm_slice ex5 0 0) (2 * 5 + 2)"
  by (simp add: first_max_def hm_slice_def ex5_def)

lemma ex5_entries:
  "hm_entry ex5 0 0 2 2 = Fin 5" "hm_entry ex5 0 0 2 3 = Fin 3" "hm_entry ex5 0 0 2 1 = Fin 1"
  "hm_entry ex5 0 0 3 2 = Fin 1" "hm_entry ex5 0 0 1 2 = Fin 1"
  "hm_entry ex5 0 0 2 (Suc 0) = Fin 1" "hm_entry ex5 0 0 (Suc 0) 2 = Fin 1"
  by (simp_all add: hm_entry_def ex5_def)

theorem subpixel_refinement_witness:
  "\<exists>r. decode (5, 5) 1 ex5 = Inr r \<and> kp_x r 0 0 = Fin (9 / 4) \<and> kp_y r 0 0 = Fin 2"
  using subpixel_refinement [OF ex5_ok _ _ _ _ ex5_finite _ _ ex5_peak]
  by (simp add: ex5_entries sign_def)

text \<open>
  Claim C1 as stated fails on large heatmaps. For a width of \<open>65536\<close> the decoder
  ends in the exception of \<open>F.concat\<close> and returns no coordinates. In a slice of
  \<open>8388609\<close> rows and two columns whose only positive entry is in row \<open>8388608\<close>,
  column \<open>1\<close> (the flat index \<open>2 ^ 24 + 1\<close> is no float32), the peak is not interior
  and the decoder returns \<open>x = 0\<close>, not the column \<open>1\<close>.
\<close>

theorem subpixel_refinement_counterexample:
  "heatmap_ok (wide_hm (Fin 1)) 1 1 1 65536 \<and>
   decode (1, 65536) 1 (wide_hm (Fin 1)) = Inl ConcatError \<and>
   heatmap_ok (spike 8388609 2 16777217) 1 1 8388609 2 \<and>
   list_all is_finite (hm_slice (spike 8388609 2 16777217) 0 0) \<and>
   first_max (hm_slice (spike 8388609 2 16777217) 0 0) (8388608 * 2 + 1) \<and>
   fgt (hm_entry (spike 8388609 2 16777217) 0 0 8388608 1) (Fin 0) \<and>
   decode (8388609, 2) 1 (spike 8388609 2 16777217)
     = Inr \<lparr>shape = [1, 1, 3], data = [Fin 0, Fin 8388608, Fin 1]\<rparr>"
proof -
  have i: "(16777217::nat) < 8388609 * 2" by simp
  have e: "(8388608::nat) * 2 + 1 = 16777217" by simp
  have w: "decode (1, 65536) 1 (wide_hm (Fin 1)) = Inl ConcatError"
    using wide_hm_ok by (rule decode_wide) simp
  have ok: "heatmap_ok (spike 8388609 2 16777217) 1 1 8388609 2" using i by (rule spike_ok)
  have fin: "list_all is_finite (hm_slice (spike 8388609 2 16777217) 0 0)"
    unfolding spike_slice by (rule spike_finite)
  have fm: "first_max (hm_slice (spike 8388609 2 16777217) 0 0) (8388608 * 2 + 1)"
    unfolding spike_slice e using i by (rule spike_first_max)
  have "hm_entry (spike 8388609 2 (8388608 * 2 + 1)) 0 0 8388608 1 = Fin 1"
    by (rule spike_entry) simp
  then have pos: "fgt (hm_entry (spike 8388609 2 16777217) 0 0 8388608 1) (Fin 0)"
    unfolding e by simp
  have "decode (8388609, 2) 1 (spike 8388609 2 16777217)
        = Inr \<lparr>shape = [1, 1, 3],
               data = [Fin (real (cast_f32 16777217 mod 2)),
                       Fin (real (cast_f32 (cast_f32 16777217 div 2))), Fin 1]\<rparr>"
    using i by (rule decode_spike) simp_all
  then have d: "decode (8388609, 2) 1 (spike 8388609 2 16777217)
        = Inr \<lparr>shape = [1, 1, 3], data = [Fin 0, Fin 8388608, Fin 1]\<rparr>"
    by (simp add: cast_f32_values)
  show ?thesis using wide_hm_ok w ok fin fm pos d by (intro conjI)
qed

lemma fle_antisym: "fle a b \<Longrightarrow> fle b a \<Longrightarrow> a = b"
  by (cases a; cases b) simp_all


lemma amax_is_max:
  assumes m: "m \<in> set xs" and le: "list_all (\<lambda>v. fle v m) xs"
  shows "amax_row xs = m"
proof -
  have ne: "xs \<noteq> []" using m by auto
  have nn: "list_all (\<lambda>x. \<not> is_nan x) xs"
    using le by (auto simp: list_all_iff dest: fle_not_nan)
  have fm: "first_max xs (argmax_row xs)" using ne nn by (rule argmax_row_first_max)
  then have "argmax_row xs < length xs" by (simp add: first_max_def)
  then have "xs ! argmax_row xs \<in> set xs" by simp
  then have "fle (xs ! argmax_row xs) m" using le by (simp add: list_all_iff)
  moreover have "fle m (xs ! argmax_row xs)" using fm m by (simp add: first_max_def list_all_iff)
  ultimately have "xs ! argmax_row xs = m" by (rule fle_antisym)
  then show ?thesis using amax_row_argmax [OF ne] by simp
qed

lemma first_max_bounds:
  assumes "first_max xs idx" and "length xs = H * W"
  shows "idx mod W < W" "idx div W < H"
proof -
  have i: "idx < H * W" using assms by (simp add: first_max_def)
  then have "0 < W" by (cases W) simp_all
  then show "idx mod W < W" by simp
  show "idx div W < H" using i by (simp add: less_mult_imp_div_less)
qed

lemma slot_of_finite:
  assumes fin: "list_all is_finite xs" and len: "length xs = H * W" and pos: "0 < H" "0 < W"
  shows "\<exists>dx dy. \<bar>dx\<bar> \<le> 1 / 4 \<and> \<bar>dy\<bar> \<le> 1 / 4 \<and>
           (dx \<noteq> 0 \<or> dy \<noteq> 0 \<longrightarrow>
              fgt (amax_row xs) (Fin 0) \<and> 1 < argmax_row xs mod W \<and> argmax_row xs mod W + 1 < W \<and>
              1 < argmax_row xs div W \<and> argmax_row xs div W + 1 < H) \<and>
           slot_of H W xs =
             (if fgt (amax_row xs) (Fin 0)
              then [Fin (real (argmax_row xs mod W) + dx), Fin (real (argmax_row xs div W) + dy), amax_row xs]
              else [Fin 0, Fin 0, amax_row xs])"
proof -
  define col where "col = argmax_row xs mod W"
  define row where "row = argmax_row xs div W"
  show ?thesis
  proof (cases "fgt (amax_row xs) (Fin 0)")
    case False
    have "slot_of H W xs = [Fin 0, Fin 0, amax_row xs]"
      by (simp only: slot_of_def Let_def if_not_P [OF False])
    then show ?thesis using False by (intro exI [of _ 0]) simp
  next
    case True
    show ?thesis
    proof (cases "1 < col \<and> col + 1 < W \<and> 1 < row \<and> row + 1 < H")
      case nint: False
      have "slot_of H W xs = [Fin (real col), Fin (real row), amax_row xs]"
        unfolding col_def row_def
        by (simp only: slot_of_def Let_def if_P [OF True] if_not_P [OF nint [unfolded col_def row_def]])
      then show ?thesis using True unfolding col_def row_def by (intro exI [of _ 0]) simp
    next
      case int: True
      have lt: "col + 1 < W" "col - 1 < W" "row + 1 < H" "row - 1 < H" "row < H" "col < W"
        using int by linarith+
      have mem: "row * W + (col + 1) < length xs" "row * W + (col - 1) < length xs"
        "(row + 1) * W + col < length xs" "(row - 1) * W + col < length xs"
        unfolding len
        using chunk_bound [OF lt(5) lt(1)] chunk_bound [OF lt(5) lt(2)]
          chunk_bound [OF lt(3) lt(6)] chunk_bound [OF lt(4) lt(6)] by blast+
      have f: "is_finite (xs ! (row * W + (col + 1)))" "is_finite (xs ! (row * W + (col - 1)))"
        "is_finite (xs ! ((row + 1) * W + col))" "is_finite (xs ! ((row - 1) * W + col))"
        using fin mem by (simp_all add: list_all_length)
      define dx where "dx = 1 / 4 * sign (rv (xs ! (row * W + (col + 1))) - rv (xs ! (row * W + (col - 1))))"
      define dy where "dy = 1 / 4 * sign (rv (xs ! ((row + 1) * W + col)) - rv (xs ! ((row - 1) * W + col)))"
      have q: "quarter (xs ! (row * W + (col + 1))) (xs ! (row * W + (col - 1))) = Fin dx"
        "quarter (xs ! ((row + 1) * W + col)) (xs ! ((row - 1) * W + col)) = Fin dy"
        unfolding dx_def dy_def using f finite_rv quarter_fin by metis+
      have b: "\<bar>dx\<bar> \<le> 1 / 4" "\<bar>dy\<bar> \<le> 1 / 4" by (simp_all add: dx_def dy_def sign_def)
      have "slot_of H W xs =
            [fadd (Fin (real col)) (quarter (xs ! (row * W + (col + 1))) (xs ! (row * W + (col - 1)))),
             fadd (Fin (real row)) (quarter (xs ! ((row + 1) * W + col)) (xs ! ((row - 1) * W + col))),
             amax_row xs]"
        unfolding col_def row_def
        by (simp only: slot_of_def Let_def if_P [OF True] if_P [OF int [unfolded col_def row_def]])
      then have "slot_of H W xs = [Fin (real col + dx), Fin (real row + dy), amax_row xs]"
        unfolding q by simp
      then show ?thesis using True int b unfolding col_def row_def
        by (intro exI [of _ dx] exI [of _ dy]) simp
    qed
  qed
qed

section \<open>Peak, gating, layout and range of the result\<close>





lemma ex_batch_ok: "heatmap_ok ex_batch 2 2 1 2"
  by (simp add: heatmap_ok_def ex_batch_def valid_array_def)









text \<open>
  Claim C6, amended. A heatmap of shape \<open>(B, K, H, W)\<close> with \<open>W < 65536\<close> is decoded
  into an array of shape \<open>(B, K, 3)\<close>, batch-major, then keypoint-major: entry
  \<open>3 * (b * K + k) + 2\<close> is the score of slice \<open>(b, k)\<close>, and for slices of at most
  \<open>2 ^ 24\<close> entries the entries \<open>3 * (b * K + k) + 0, 1, 2\<close> are \<open>x\<close>, \<open>y\<close> and
  \<open>score\<close> of slice \<open>(b, k)\<close>, in that order.
\<close>

theorem result_layout:
  assumes ok: "heatmap_ok a B K H W" and wd: "W < 65536"
  shows "\<exists>r. decode (H, W) K a = Inr r \<and> shape r = [B, K, 3] \<and> valid_array r \<and>
           (\<forall>b<B. \<forall>k<K.
              data r ! ((b * K + k) * 3 + 2) = amax_row (hm_slice a b k) \<and>
              (H * W \<le> 2 ^ 24 \<longrightarrow>
                 [data r ! ((b * K + k) * 3), data r ! ((b * K + k) * 3 + 1), data r ! ((b * K + k) * 3 + 2)]
                 = slot_of H W (hm_slice a b k)))"
proof -
  obtain kp where d: "decode (H, W) K a = Inr \<lparr>shape = [B, K, 3], data = kp\<rparr>"
    and l: "length kp = 3 * (B * K)"
    and s: "\<forall>b<B. \<forall>k<K. [kp ! (3 * (b * K + k)), kp ! (3 * (b * K + k) + 1), kp ! (3 * (b * K + k) + 2)]
                          = slot_decoded H W (hm_slice a b k)"
    using decode_ok [OF ok wd] by blast
  let ?r = "\<lparr>shape = [B, K, 3], data = kp\<rparr>"
  have v: "valid_array ?r" using l by (simp add: valid_array_def)
  have lay: "[kp ! ((b * K + k) * 3), kp ! ((b * K + k) * 3 + 1), kp ! ((b * K + k) * 3 + 2)]
          = slot_decoded H W (hm_slice a b k)" if "b < B" "k < K" for b k
    unfolding mult.commute [of "b * K + k" 3] using s that by blast
  have score: "kp ! ((b * K + k) * 3 + 2) = amax_row (hm_slice a b k)" if "b < B" "k < K" for b k
  proof -
    have "[kp ! ((b * K + k) * 3), kp ! ((b * K + k) * 3 + 1), kp ! ((b * K + k) * 3 + 2)] ! 2
          = amax_row (hm_slice a b k)"
      unfolding lay [OF that] by (rule slot_decoded_score)
    then show ?thesis by (simp add: numeral_2_eq_2)
  qed
  have small: "[kp ! ((b * K + k) * 3), kp ! ((b * K + k) * 3 + 1), kp ! ((b * K + k) * 3 + 2)]
          = slot_of H W (hm_slice a b k)"
    if "b < B" "k < K" "H * W \<le> 2 ^ 24" for b k
  proof -
    have "slot_decoded H W (hm_slice a b k) = slot_of H W (hm_slice a b k)"
      using slice_length(2) [OF ok that(1,2)] slice_length(1) [OF ok that(1,2)] that(3)
      by (rule slot_decoded_small)
    then show ?thesis using lay [OF that(1,2)] by simp
  qed
  have all: "\<forall>b<B. \<forall>k<K.
          kp ! ((b * K + k) * 3 + 2) = amax_row (hm_slice a b k) \<and>
          (H * W \<le> 2 ^ 24 \<longrightarrow>
             [kp ! ((b * K + k) * 3), kp ! ((b * K + k) * 3 + 1), kp ! ((b * K + k) * 3 + 2)]
             = slot_of H W (hm_slice a b k))"
    using score small by blast
  show ?thesis
  proof (intro exI [of _ ?r] conjI)
    show "decode (H, W) K a = Inr ?r" by (rule d)
    show "shape ?r = [B, K, 3]" by simp
    show "valid_array ?r" by (rule v)
    show "\<forall>b<B. \<forall>k<K.
          data ?r ! ((b * K + k) * 3 + 2) = amax_row (hm_slice a b k) \<and>
          (H * W \<le> 2 ^ 24 \<longrightarrow>
             [data ?r ! ((b * K + k) * 3), data ?r ! ((b * K + k) * 3 + 1), data ?r ! ((b * K + k) * 3 + 2)]
             = slot_of H W (hm_slice a b k))"
      using all by (simp only: ndarray.select_convs)
  qed
qed

lemma ex_batch_slots:
  "slot_of 1 2 (hm_slice ex_batch 0 0) = [Fin 1, Fin 0, Fin 2]"
  "slot_of 1 2 (hm_slice ex_batch 0 1) = [Fin 0, Fin 0, Fin 4]"
  "slot_of 1 2 (hm_slice ex_batch 1 0) = [Fin 0, Fin 0, Fin (- 1)]"
  "slot_of 1 2 (hm_slice ex_batch 1 1) = [Fin 1, Fin 0, Fin 5]"
  by (simp_all add: slot_of_def hm_slice_def ex_batch_def argmax_row_def amax_row_def fmaximum_def Let_def)

theorem result_layout_witness:
  "decode (1, 2) 2 ex_batch =
     Inr \<lparr>shape = [2, 2, 3],
          data = map Fin [1, 0, 2,  0, 0, 4,  0, 0, - 1,  1, 0, 5]\<rparr>"
proof -
  obtain r where d: "decode (1, 2) 2 ex_batch = Inr r" and sh: "shape r = [2, 2, 3]"
    and v: "valid_array r"
    and s0: "\<forall>b<2. \<forall>k<2.
              data r ! ((b * 2 + k) * 3 + 2) = amax_row (hm_slice ex_batch b k) \<and>
              ((1::nat) * 2 \<le> 2 ^ 24 \<longrightarrow>
                 [data r ! ((b * 2 + k) * 3), data r ! ((b * 2 + k) * 3 + 1), data r ! ((b * 2 + k) * 3 + 2)]
                 = slot_of 1 2 (hm_slice ex_batch b k))"
    using result_layout [OF ex_batch_ok] by auto
  have le: "(1::nat) * 2 \<le> 2 ^ 24" by simp
  have s: "\<forall>b<2. \<forall>k<2.
              [data r ! ((b * 2 + k) * 3), data r ! ((b * 2 + k) * 3 + 1), data r ! ((b * 2 + k) * 3 + 2)]
              = slot_of 1 2 (hm_slice ex_batch b k)"
    using s0 le by blast
  have l: "length (data r) = 12" using v sh by (simp add: valid_array_def)
  have "[data r ! ((0 * 2 + 0) * 3), data r ! ((0 * 2 + 0) * 3 + 1), data r ! ((0 * 2 + 0) * 3 + 2)]
        = slot_of 1 2 (hm_slice ex_batch 0 0)"
    by (rule s [rule_format]) simp_all
  then have s00: "[data r ! 0, data r ! 1, data r ! 2] = [Fin 1, Fin 0, Fin 2]"
    unfolding ex_batch_slots by (simp add: numeral_2_eq_2)
  have "[data r ! ((0 * 2 + 1) * 3), data r ! ((0 * 2 + 1) * 3 + 1), data r ! ((0 * 2 + 1) * 3 + 2)]
        = slot_of 1 2 (hm_slice ex_batch 0 1)"
    by (rule s [rule_format]) simp_all
  then have s01: "[data r ! 3, data r ! 4, data r ! 5] = [Fin 0, Fin 0, Fin 4]"
    unfolding ex_batch_slots by simp
  have "[data r ! ((1 * 2 + 0) * 3), data r ! ((1 * 2 + 0) * 3 + 1), data r ! ((1 * 2 + 0) * 3 + 2)]
        = slot_of 1 2 (hm_slice ex_batch 1 0)"
    by (rule s [rule_format]) simp_all
  then have s10: "[data r ! 6, data r ! 7, data r ! 8] = [Fin 0, Fin 0, Fin (- 1)]"
    unfolding ex_batch_slots by simp
  have "[data r ! ((1 * 2 + 1) * 3), data r ! ((1 * 2 + 1) * 3 + 1), data r ! ((1 * 2 + 1) * 3 + 2)]
        = slot_of 1 2 (hm_slice ex_batch 1 1)"
    by (rule s [rule_format]) simp_all
  then have s11: "[data r ! 9, data r ! 10, data r ! 11] = [Fin 1, Fin 0, Fin 5]"
    unfolding ex_batch_slots by simp
  have "data r = [data r ! 0, data r ! 1, data r ! 2, data r ! 3, data r ! 4, data r ! 5,
                  data r ! 6, data r ! 7, data r ! 8, data r ! 9, data r ! 10, data r ! 11]"
    using l by (intro nth_equalityI) (auto simp: less_Suc_eq numeral_eq_Suc nth_Cons')
  then have "data r = map Fin [1, 0, 2,  0, 0, 4,  0, 0, - 1,  1, 0, 5]"
    using s00 s01 s10 s11 by simp
  then have "r = \<lparr>shape = [2, 2, 3], data = map Fin [1, 0, 2,  0, 0, 4,  0, 0, - 1,  1, 0, 5]\<rparr>"
    using sh by (cases r) simp
  with d show ?thesis by simp
qed

text \<open>
  Claim C6 as stated fails on large heatmaps. A heatmap of shape
  \<open>(1, 1, 1, 65536)\<close> is decoded into no array at all; the call ends in the
  exception of \<open>F.concat\<close>. For a single column of \<open>2 ^ 24 + 2\<close> rows with its
  maximum in row \<open>2 ^ 24 + 1\<close>, the slot holds \<open>y = 2 ^ 24\<close>, not the \<open>y\<close> of the
  slice.
\<close>

theorem result_layout_counterexample:
  "heatmap_ok (wide_hm (Fin 2)) 1 1 1 65536 \<and>
   decode (1, 65536) 1 (wide_hm (Fin 2)) = Inl ConcatError \<and>
   heatmap_ok (spike 16777218 1 16777217) 1 1 16777218 1 \<and>
   slot_of 16777218 1 (hm_slice (spike 16777218 1 16777217) 0 0) = [Fin 0, Fin 16777217, Fin 1] \<and>
   decode (16777218, 1) 1 (spike 16777218 1 16777217)
     = Inr \<lparr>shape = [1, 1, 3], data = [Fin 0, Fin 16777216, Fin 1]\<rparr>"
proof -
  have i: "(16777217::nat) < 16777218 * 1" by simp
  have w: "decode (1, 65536) 1 (wide_hm (Fin 2)) = Inl ConcatError"
    using wide_hm_ok by (rule decode_wide) simp
  have ok: "heatmap_ok (spike 16777218 1 16777217) 1 1 16777218 1" using i by (rule spike_ok)
  have "slot_of 16777218 1 (hm_slice (spike 16777218 1 16777217) 0 0)
        = [Fin (real ((16777217::nat) mod 1)), Fin (real ((16777217::nat) div 1)), Fin 1]"
    unfolding spike_slice using i by (rule slot_of_spike) simp
  then have sp: "slot_of 16777218 1 (hm_slice (spike 16777218 1 16777217) 0 0)
        = [Fin 0, Fin 16777217, Fin 1]"
    by simp
  have "decode (16777218, 1) 1 (spike 16777218 1 16777217)
        = Inr \<lparr>shape = [1, 1, 3],
               data = [Fin (real (cast_f32 16777217 mod 1)),
                       Fin (real (cast_f32 (cast_f32 16777217 div 1))), Fin 1]\<rparr>"
    using i by (rule decode_spike) simp_all
  then have d: "decode (16777218, 1) 1 (spike 16777218 1 16777217)
        = Inr \<lparr>shape = [1, 1, 3], data = [Fin 0, Fin 16777216, Fin 1]\<rparr>"
    by (simp add: cast_f32_values)
  show ?thesis using wide_hm_ok w ok sp d by (intro conjI)
qed

text \<open>
  Claim C10, amended. On a well-formed heatmap of width \<open>W < 65536\<close>, with at most
  \<open>2 ^ 24\<close> entries in a slice and with finite entries, every record has
  \<open>0 \<le> x \<le> W - 1\<close> and \<open>0 \<le> y \<le> H - 1\<close>: \<open>x = col + dx\<close> and \<open>y = row + dy\<close> for
  a grid position \<open>(row, col)\<close> and offsets of magnitude at most a quarter, which are
  nonzero only for \<open>2 \<le> col \<le> W - 2\<close> and \<open>2 \<le> row \<le> H - 2\<close>; a record whose
  score is not positive sits at \<open>(0, 0)\<close>.
\<close>

theorem coordinates_in_grid:
  assumes ok: "heatmap_ok a B K H W" and wd: "W < 65536" and sz: "H * W \<le> 2 ^ 24"
    and b: "b < B" and k: "k < K"
    and fin: "list_all is_finite (hm_slice a b k)"
  shows "\<exists>r col row dx dy. decode (H, W) K a = Inr r \<and>
           kp_x r b k = Fin (real col + dx) \<and> kp_y r b k = Fin (real row + dy) \<and>
           col < W \<and> row < H \<and> \<bar>dx\<bar> \<le> 1 / 4 \<and> \<bar>dy\<bar> \<le> 1 / 4 \<and>
           (dx \<noteq> 0 \<or> dy \<noteq> 0 \<longrightarrow> 2 \<le> col \<and> col \<le> W - 2 \<and> 2 \<le> row \<and> row \<le> H - 2) \<and>
           (\<not> fgt (kp_score r b k) (Fin 0) \<longrightarrow> col = 0 \<and> row = 0 \<and> dx = 0 \<and> dy = 0) \<and>
           0 \<le> real col + dx \<and> real col + dx \<le> real W - 1 \<and>
           0 \<le> real row + dy \<and> real row + dy \<le> real H - 1"
proof -
  let ?xs = "hm_slice a b k"
  let ?idx = "argmax_row ?xs"
  obtain r where d: "decode (H, W) K a = Inr r"
    and slot: "[kp_x r b k, kp_y r b k, kp_score r b k] = slot_of H W ?xs"
    using decode_slot [OF ok wd sz b k] by blast
  have pos: "0 < H" "0 < W" using ok by (simp_all add: heatmap_ok_def)
  have len: "length ?xs = H * W" and ne: "?xs \<noteq> []" using ok b k by (rule slice_length)+
  have nn: "list_all (\<lambda>x. \<not> is_nan x) ?xs" using fin by (rule finite_not_nan)
  have fm: "first_max ?xs ?idx" using ne nn by (rule argmax_row_first_max)
  have bd: "?idx mod W < W" "?idx div W < H" using fm len by (rule first_max_bounds)+
  obtain dx dy where dxy: "\<bar>dx\<bar> \<le> 1 / 4" "\<bar>dy\<bar> \<le> 1 / 4"
    "dx \<noteq> 0 \<or> dy \<noteq> 0 \<longrightarrow>
       fgt (amax_row ?xs) (Fin 0) \<and> 1 < ?idx mod W \<and> ?idx mod W + 1 < W \<and>
       1 < ?idx div W \<and> ?idx div W + 1 < H"
    and so: "slot_of H W ?xs =
       (if fgt (amax_row ?xs) (Fin 0)
        then [Fin (real (?idx mod W) + dx), Fin (real (?idx div W) + dy), amax_row ?xs]
        else [Fin 0, Fin 0, amax_row ?xs])"
    using slot_of_finite [OF fin len pos] by blast
  have sc: "kp_score r b k = amax_row ?xs" using slot so by (simp split: if_splits)
  show ?thesis
  proof (cases "fgt (amax_row ?xs) (Fin 0)")
    case False
    then have "kp_x r b k = Fin (real 0 + 0)" "kp_y r b k = Fin (real 0 + 0)"
      using slot so by simp_all
    moreover have "\<not> fgt (kp_score r b k) (Fin 0)" using False sc by simp
    ultimately show ?thesis using d pos
      by (intro exI [of _ r] exI [of _ "0::nat"] exI [of _ "0::real"]) simp
  next
    case True
    define col where "col = ?idx mod W"
    define row where "row = ?idx div W"
    have xy: "kp_x r b k = Fin (real col + dx)" "kp_y r b k = Fin (real row + dy)"
      using True slot so by (simp_all add: col_def row_def)
    have cr: "col < W" "row < H" using bd by (simp_all add: col_def row_def)
    have int: "dx \<noteq> 0 \<or> dy \<noteq> 0 \<longrightarrow> 2 \<le> col \<and> col \<le> W - 2 \<and> 2 \<le> row \<and> row \<le> H - 2"
      using dxy(3) unfolding col_def row_def by linarith
    have zeroed: "\<not> fgt (kp_score r b k) (Fin 0) \<longrightarrow> col = 0 \<and> row = 0 \<and> dx = 0 \<and> dy = 0"
      using True sc by simp
    have x0: "0 \<le> real col + dx \<and> real col + dx \<le> real W - 1"
    proof (cases "dx = 0")
      case True
      then show ?thesis using cr(1) by (simp add: of_nat_diff Suc_leI)
    next
      case False
      then have "2 \<le> col" "col + 2 \<le> W" using int cr by linarith+
      then have "2 \<le> real col" "real col + 2 \<le> real W" by (simp_all add: of_nat_le_iff [symmetric] del: of_nat_le_iff)
      then show ?thesis using dxy(1) by linarith
    qed
    have y0: "0 \<le> real row + dy \<and> real row + dy \<le> real H - 1"
    proof (cases "dy = 0")
      case True
      then show ?thesis using cr(2) by (simp add: of_nat_diff Suc_leI)
    next
      case False
      then have "2 \<le> row" "row + 2 \<le> H" using int cr by linarith+
      then have "2 \<le> real row" "real row + 2 \<le> real H" by (simp_all add: of_nat_le_iff [symmetric] del: of_nat_le_iff)
      then show ?thesis using dxy(2) by linarith
    qed
    show ?thesis using d xy cr dxy(1,2) int zeroed x0 y0 by blast
  qed
qed

theorem coordinates_in_grid_witness:
  "\<exists>r x y. decode (5, 5) 1 ex5 = Inr r \<and> kp_x r 0 0 = Fin x \<and> kp_y r 0 0 = Fin y \<and>
       0 \<le> x \<and> x \<le> 4 \<and> 0 \<le> y \<and> y \<le> 4"
  using coordinates_in_grid [OF ex5_ok _ _ _ _ ex5_finite] by fastforce

text \<open>
  Claim C10 as stated fails on large heatmaps. For a width of \<open>65536\<close> the decoder
  returns no record. In a slice of \<open>H = 8388610\<close> rows and two columns whose
  maximum is the last entry, the flat index \<open>2 ^ 24 + 3\<close> is rounded up to the
  float32 \<open>2 ^ 24 + 4\<close>, and the decoder returns \<open>y = 8388610 = H\<close>, outside the
  grid.
\<close>

theorem coordinates_in_grid_counterexample:
  "decode (1, 65536) 1 (wide_hm (Fin 3)) = Inl ConcatError \<and>
   heatmap_ok (spike 8388610 2 16777219) 1 1 8388610 2 \<and>
   list_all is_finite (hm_slice (spike 8388610 2 16777219) 0 0) \<and>
   decode (8388610, 2) 1 (spike 8388610 2 16777219)
     = Inr \<lparr>shape = [1, 1, 3], data = [Fin 0, Fin 8388610, Fin 1]\<rparr>"
proof -
  have i: "(16777219::nat) < 8388610 * 2" by simp
  have w: "decode (1, 65536) 1 (wide_hm (Fin 3)) = Inl ConcatError"
    using wide_hm_ok by (rule decode_wide) simp
  have ok: "heatmap_ok (spike 8388610 2 16777219) 1 1 8388610 2" using i by (rule spike_ok)
  have fin: "list_all is_finite (hm_slice (spike 8388610 2 16777219) 0 0)"
    unfolding spike_slice by (rule spike_finite)
  have "decode (8388610, 2) 1 (spike 8388610 2 16777219)
        = Inr \<lparr>shape = [1, 1, 3],
               data = [Fin (real (cast_f32 16777219 mod 2)),
                       Fin (real (cast_f32 (cast_f32 16777219 div 2))), Fin 1]\<rparr>"
    using i by (rule decode_spike) simp_all
  then have d: "decode (8388610, 2) 1 (spike 8388610 2 16777219)
        = Inr \<lparr>shape = [1, 1, 3], data = [Fin 0, Fin 8388610, Fin 1]\<rparr>"
    by (simp add: cast_f32_values)
  show ?thesis using w ok fin d by (intro conjI)
qed

section \<open>The heap-level decoder simulates the decoder on values\<close>

lemma read2_append:
  "p < length h \<Longrightarrow> read2 (h @ [x]) p b k r c =
     (case get_item (h ! p) b k of Inl e \<Rightarrow> Inl e | Inr hm \<Rightarrow> item2 hm r c)"
  by (simp add: read2_def nth_append)

lemma iadd_at_append:
  "iadd_at (h @ [\<lparr>shape = s, data = kp\<rparr>]) (length h) i vs =
     (case iadd_item kp i vs of Inl e \<Rightarrow> Inl e | Inr d \<Rightarrow> Inr (h @ [\<lparr>shape = s, data = d\<rparr>]))"
  by (simp add: iadd_at_def split: sum.splits)

lemma refine_st_sim:
  assumes p: "p < length h"
  shows "\<exists>kp''. refine_st osz K p (length h) keys_x keys_y b k (h @ [\<lparr>shape = s, data = kp\<rparr>])
                 = (status (refine osz K (h ! p) keys_x keys_y b k kp),
                    h @ [\<lparr>shape = s, data = kp''\<rparr>])
               \<and> (\<forall>kp'. refine osz K (h ! p) keys_x keys_y b k kp = Inr kp' \<longrightarrow> kp'' = kp')"
proof -
  let ?H = "h @ [\<lparr>shape = s, data = kp\<rparr>]"
  let ?st = "refine_st osz K p (length h) keys_x keys_y b k ?H"
  let ?pure = "refine osz K (h ! p) keys_x keys_y b k kp"
  have n: "(h @ [x]) ! p = h ! p" for x using p by (simp add: nth_append)
  have done_with: ?thesis if "?pure = v" and "?st = (status v, h @ [\<lparr>shape = s, data = d\<rparr>])"
    and "\<And>kp'. v = Inr kp' \<Longrightarrow> d = kp'" for v d
    using that by auto
  note rw = n sum.case prod.case status_def
  show ?thesis
  proof (cases "get_item (h ! p) b k")
    case g: (Inl e)
    have "?pure = Inl e" by (simp only: refine_def g rw)
    moreover have "?st = (status (Inl e), ?H)" by (simp only: refine_st_def g rw)
    ultimately show ?thesis by (rule done_with) simp
  next
    case g: (Inr hm)
    have rd: "read2 (h @ [x]) p b k r c = item2 hm r c" for x r c
      by (simp add: read2_append [OF p] g)
    show ?thesis
    proof (cases "to_int (keys_x ! (b * K + k))")
      case x: (Inl e)
      have "?pure = Inl e" by (simp only: refine_def g x rw)
      moreover have "?st = (status (Inl e), ?H)" by (simp only: refine_st_def g x rw)
      ultimately show ?thesis by (rule done_with) simp
    next
      case x: (Inr px)
      show ?thesis
      proof (cases "to_int (keys_y ! (b * K + k))")
        case y: (Inl e)
        have "?pure = Inl e" by (simp only: refine_def g x y rw)
        moreover have "?st = (status (Inl e), ?H)" by (simp only: refine_st_def g x y rw)
        ultimately show ?thesis by (rule done_with) simp
      next
        case y: (Inr py)
        show ?thesis
        proof (cases "(1 < px \<and> px < int (snd osz) - 1) \<and> (1 < py \<and> py < int (fst osz) - 1)")
          case c: False
          have "?pure = Inr kp" by (simp only: refine_def g x y if_not_P [OF c] rw)
          moreover have "?st = (status (Inr kp), ?H)"
            by (simp only: refine_st_def g x y if_not_P [OF c] rw)
          ultimately show ?thesis by (rule done_with) simp
        next
          case c: True
          note base = g x y if_P [OF c] rd iadd_at_append rw
          show ?thesis
          proof (cases "item2 hm py (px + 1)")
            case r1: (Inl e)
            have "?pure = Inl e" by (simp only: refine_def base r1)
            moreover have "?st = (status (Inl e), ?H)" by (simp only: refine_st_def base r1)
            ultimately show ?thesis by (rule done_with) simp
          next
            case r1: (Inr x_hi)
            show ?thesis
            proof (cases "item2 hm py (px - 1)")
              case r2: (Inl e)
              have "?pure = Inl e" by (simp only: refine_def base r1 r2)
              moreover have "?st = (status (Inl e), ?H)" by (simp only: refine_st_def base r1 r2)
              ultimately show ?thesis by (rule done_with) simp
            next
              case r2: (Inr x_lo)
              show ?thesis
              proof (cases "iadd_item kp (3 * (b * K + k)) (quarter_sign x_hi x_lo)")
                case w1: (Inl e)
                have "?pure = Inl e" by (simp only: refine_def base r1 r2 w1)
                moreover have "?st = (status (Inl e), ?H)"
                  by (simp only: refine_st_def base r1 r2 w1)
                ultimately show ?thesis by (rule done_with) simp
              next
                case w1: (Inr kp1)
                let ?H1 = "h @ [\<lparr>shape = s, data = kp1\<rparr>]"
                show ?thesis
                proof (cases "item2 hm (py + 1) px")
                  case r3: (Inl e)
                  have "?pure = Inl e" by (simp only: refine_def base r1 r2 w1 r3)
                  moreover have "?st = (status (Inl e), ?H1)"
                    by (simp only: refine_st_def base r1 r2 w1 r3)
                  ultimately show ?thesis by (rule done_with) simp
                next
                  case r3: (Inr y_hi)
                  show ?thesis
                  proof (cases "item2 hm (py - 1) px")
                    case r4: (Inl e)
                    have "?pure = Inl e" by (simp only: refine_def base r1 r2 w1 r3 r4)
                    moreover have "?st = (status (Inl e), ?H1)"
                      by (simp only: refine_st_def base r1 r2 w1 r3 r4)
                    ultimately show ?thesis by (rule done_with) simp
                  next
                    case r4: (Inr y_lo)
                    show ?thesis
                    proof (cases "iadd_item kp1 (3 * (b * K + k) + 1) (quarter_sign y_hi y_lo)")
                      case w2: (Inl e)
                      have "?pure = Inl e" by (simp only: refine_def base r1 r2 w1 r3 r4 w2)
                      moreover have "?st = (status (Inl e), ?H1)"
                        by (simp only: refine_st_def base r1 r2 w1 r3 r4 w2)
                      ultimately show ?thesis by (rule done_with) simp
                    next
                      case w2: (Inr kp2)
                      have "?pure = Inr kp2" by (simp only: refine_def base r1 r2 w1 r3 r4 w2)
                      moreover have "?st = (status (Inr kp2), h @ [\<lparr>shape = s, data = kp2\<rparr>])"
                        by (simp only: refine_st_def base r1 r2 w1 r3 r4 w2)
                      ultimately show ?thesis by (rule done_with) simp
                    qed
                  qed
                qed
              qed
            qed
          qed
        qed
      qed
    qed
  qed
qed

lemma for_each_st_sim:
  fixes f :: "'i \<Rightarrow> fval list \<Rightarrow> error + fval list"
  assumes step: "\<And>i kp. i \<in> set js \<Longrightarrow>
      \<exists>kp''. f_st i (h @ [\<lparr>shape = s, data = kp\<rparr>])
              = (status (f i kp), h @ [\<lparr>shape = s, data = kp''\<rparr>])
            \<and> (\<forall>kp'. f i kp = Inr kp' \<longrightarrow> kp'' = kp')"
  shows "\<exists>kp''. for_each_st js f_st (h @ [\<lparr>shape = s, data = kp\<rparr>])
              = (status (for_each js f kp), h @ [\<lparr>shape = s, data = kp''\<rparr>])
            \<and> (\<forall>kp'. for_each js f kp = Inr kp' \<longrightarrow> kp'' = kp')"
  using step
proof (induction js arbitrary: kp)
  case Nil
  then show ?case by (simp add: status_def)
next
  case (Cons i rest)
  obtain kp1 where s1: "f_st i (h @ [\<lparr>shape = s, data = kp\<rparr>])
              = (status (f i kp), h @ [\<lparr>shape = s, data = kp1\<rparr>])"
    and r1: "\<forall>kp'. f i kp = Inr kp' \<longrightarrow> kp1 = kp'"
    using Cons.prems [of i kp] by auto
  show ?case
  proof (cases "f i kp")
    case (Inl e)
    then show ?thesis using s1 by (simp add: status_def)
  next
    case (Inr kp')
    then have k: "kp1 = kp'" using r1 by simp
    have "\<exists>kp''. for_each_st rest f_st (h @ [\<lparr>shape = s, data = kp'\<rparr>])
              = (status (for_each rest f kp'), h @ [\<lparr>shape = s, data = kp''\<rparr>])
            \<and> (\<forall>kp2. for_each rest f kp' = Inr kp2 \<longrightarrow> kp'' = kp2)"
      using Cons.prems by (intro Cons.IH) simp
    then show ?thesis using s1 Inr k by (simp add: status_def)
  qed
qed

lemma loops_st_sim:
  assumes p: "p < length h"
  shows "\<exists>kp''. for_each_st [0..<B] (\<lambda>b. for_each_st [0..<K] (refine_st osz K p (length h) keys_x keys_y b))
                   (h @ [\<lparr>shape = s, data = kp\<rparr>])
              = (status
                   (for_each [0..<B] (\<lambda>b. for_each [0..<K] (refine osz K (h ! p) keys_x keys_y b)) kp),
                 h @ [\<lparr>shape = s, data = kp''\<rparr>])
            \<and> (\<forall>kp'. for_each [0..<B] (\<lambda>b. for_each [0..<K] (refine osz K (h ! p) keys_x keys_y b)) kp
                       = Inr kp' \<longrightarrow> kp'' = kp')"
proof (rule for_each_st_sim)
  fix b and kp0 :: "fval list"
  show "\<exists>kp''. for_each_st [0..<K] (refine_st osz K p (length h) keys_x keys_y b)
                  (h @ [\<lparr>shape = s, data = kp0\<rparr>])
              = (status (for_each [0..<K] (refine osz K (h ! p) keys_x keys_y b) kp0),
                 h @ [\<lparr>shape = s, data = kp''\<rparr>])
            \<and> (\<forall>kp'. for_each [0..<K] (refine osz K (h ! p) keys_x keys_y b) kp0 = Inr kp' \<longrightarrow> kp'' = kp')"
  proof (rule for_each_st_sim)
    fix k and kp1 :: "fval list"
    show "\<exists>kp''. refine_st osz K p (length h) keys_x keys_y b k (h @ [\<lparr>shape = s, data = kp1\<rparr>])
                 = (status (refine osz K (h ! p) keys_x keys_y b k kp1),
                    h @ [\<lparr>shape = s, data = kp''\<rparr>])
               \<and> (\<forall>kp'. refine osz K (h ! p) keys_x keys_y b k kp1 = Inr kp' \<longrightarrow> kp'' = kp')"
      using p by (rule refine_st_sim)
  qed
qed

lemma decode_st_sim:
  assumes p: "p < length h"
  shows "\<exists>h'. decode_st osz K p h = (map_sum id (\<lambda>_. length h) (decode osz K (h ! p)), h')
             \<and> (h' = h \<or> (\<exists>x. h' = h @ [x]))
             \<and> (\<forall>r. decode osz K (h ! p) = Inr r \<longrightarrow> h' = h @ [r])"
proof (cases "shape (h ! p)")
  case Nil
  then show ?thesis by (simp add: decode_st_def decode_def)
next
  case (Cons batch rest)
  show ?thesis
  proof (cases "infer_dim batch K (prod_list (shape (h ! p)))")
    case (Inl e)
    then show ?thesis using Cons by (simp add: decode_st_def decode_def)
  next
    case (Inr n)
    show ?thesis
    proof (cases "n = 0")
      case True
      then show ?thesis using Cons Inr by (simp add: decode_st_def decode_def)
    next
      case False
      let ?hv = "rows (batch * K) n (data (h ! p))"
      let ?ind = "map (\<lambda>row. astype_float32 (F_argmax row)) ?hv"
      let ?keys_x = "map (\<lambda>(z, m). fmul (idx_mod z (snd osz)) m)
          (zip ?ind (map score_mask (map amax_row ?hv)))"
      let ?keys_y = "map (\<lambda>(z, m). fmul (idx_floordiv z (snd osz)) m)
          (zip ?ind (map score_mask (map amax_row ?hv)))"
      let ?cc = "F_concat (keys_dtype (snd osz)) ?keys_x ?keys_y (map amax_row ?hv)"
      have pure: "decode osz K (h ! p) =
          (case ?cc of
             Inl e \<Rightarrow> Inl e
           | Inr kps \<Rightarrow>
              (case for_each [0..<batch] (\<lambda>b. for_each [0..<K] (refine osz K (h ! p) ?keys_x ?keys_y b))
                      kps of
                 Inl e \<Rightarrow> Inl e | Inr kp \<Rightarrow> Inr \<lparr>shape = [batch, K, 3], data = kp\<rparr>))"
        by (simp only: decode_def Cons list.case Inr [unfolded Cons] sum.case if_not_P [OF False] Let_def)
      have st: "decode_st osz K p h =
          (case ?cc of
             Inl e \<Rightarrow> (Inl e, h)
           | Inr kps \<Rightarrow>
              (case for_each_st [0..<batch]
                      (\<lambda>b. for_each_st [0..<K] (refine_st osz K p (length h) ?keys_x ?keys_y b))
                      (h @ [\<lparr>shape = [batch, K, 3], data = kps\<rparr>]) of
                 (Inl e, h') \<Rightarrow> (Inl e, h') | (Inr _, h') \<Rightarrow> (Inr (length h), h')))"
        by (simp only: decode_st_def Cons list.case Inr [unfolded Cons] sum.case if_not_P [OF False] Let_def
            alloc_def prod.case)
      show ?thesis
      proof (cases ?cc)
        case cI: (Inl e)
        show ?thesis unfolding pure st cI by simp
      next
        case cR: (Inr kp0)
        let ?loop = "for_each [0..<batch] (\<lambda>b. for_each [0..<K] (refine osz K (h ! p) ?keys_x ?keys_y b)) kp0"
        obtain kp'' where sim: "for_each_st [0..<batch]
                    (\<lambda>b. for_each_st [0..<K] (refine_st osz K p (length h) ?keys_x ?keys_y b))
                    (h @ [\<lparr>shape = [batch, K, 3], data = kp0\<rparr>])
                  = (status ?loop, h @ [\<lparr>shape = [batch, K, 3], data = kp''\<rparr>])"
          and fin: "\<forall>kp'. ?loop = Inr kp' \<longrightarrow> kp'' = kp'"
          using loops_st_sim [OF p, where B = batch and K = K and osz = osz and keys_x = "?keys_x"
              and keys_y = "?keys_y" and s = "[batch, K, 3]" and kp = kp0]
          by (elim exE conjE) (rule that)
        show ?thesis
        proof (cases ?loop)
          case lI: (Inl e)
          then show ?thesis unfolding pure st cR sum.case sim by (simp add: status_def)
        next
          case lR: (Inr kp')
          then have "kp'' = kp'" using fin by simp
          then show ?thesis unfolding pure st cR sum.case sim using lR by (simp add: status_def)
        qed
      qed
    qed
  qed
qed

section \<open>The heatmap is not written to\<close>

text \<open>
  What a run on the heap returns to its caller is what the decoder on values computes
  from the heatmap at the address.
\<close>

lemma decode_st_result:
  assumes p: "p < length h"
  shows "result_of (decode_st osz K p h) = decode osz K (h ! p)"
proof -
  obtain h' where d: "decode_st osz K p h = (map_sum id (\<lambda>_. length h) (decode osz K (h ! p)), h')"
    and f: "\<forall>r. decode osz K (h ! p) = Inr r \<longrightarrow> h' = h @ [r]"
    using decode_st_sim [OF p] by blast
  show ?thesis
  proof (cases "decode osz K (h ! p)")
    case (Inl e)
    then show ?thesis using d by (simp add: result_of_def)
  next
    case (Inr r)
    then have "h' = h @ [r]" using f by simp
    then show ?thesis using d Inr by (simp add: result_of_def)
  qed
qed

text \<open>
  Claim C8. A run of the decoder on the heatmap at address \<open>p\<close> leaves every array
  that existed before the call as it was, the heatmap included, also when the run ends
  in an exception; the address it returns is new, so the keypoint array shares no
  storage with the heatmap, and the in-place updates went to that new array only.
\<close>

theorem input_not_mutated:
  assumes p: "p < length h" and run: "decode_st osz K p h = (res, h')"
  shows "h' ! p = h ! p \<and> length h \<le> length h' \<and> (\<forall>a<length h. h' ! a = h ! a) \<and>
         (\<forall>q. res = Inr q \<longrightarrow> q = length h \<and> q < length h' \<and> q \<noteq> p)"
proof -
  obtain h'' where d: "decode_st osz K p h = (map_sum id (\<lambda>_. length h) (decode osz K (h ! p)), h'')"
    and e: "h'' = h \<or> (\<exists>x. h'' = h @ [x])"
    and f: "\<forall>r. decode osz K (h ! p) = Inr r \<longrightarrow> h'' = h @ [r]"
    using decode_st_sim [OF p] by blast
  have h': "h' = h''" and res: "res = map_sum id (\<lambda>_. length h) (decode osz K (h ! p))"
    using d run by simp_all
  have old: "\<forall>a<length h. h' ! a = h ! a" using e h' by (auto simp: nth_append)
  have len: "length h \<le> length h'" using e h' by auto
  have fresh: "q = length h \<and> q < length h' \<and> q \<noteq> p" if "res = Inr q" for q
  proof -
    have "\<exists>r. decode osz K (h ! p) = Inr r \<and> q = length h"
      using that res by (cases "decode osz K (h ! p)") auto
    then obtain r where r: "decode osz K (h ! p) = Inr r" and q: "q = length h" by blast
    then have "h' = h @ [r]" using f h' by simp
    then show ?thesis using q p by simp
  qed
  show ?thesis using old len fresh p by blast
qed

theorem input_not_mutated_witness:
  "snd (decode_st (5, 5) 1 0 [ex5]) ! 0 = ex5 \<and> fst (decode_st (5, 5) 1 0 [ex5]) = Inr 1"
proof -
  have p: "0 < length [ex5]" by simp
  have run: "decode_st (5, 5) 1 0 [ex5] = (fst (decode_st (5, 5) 1 0 [ex5]), snd (decode_st (5, 5) 1 0 [ex5]))"
    by simp
  obtain h' where d: "decode_st (5, 5) 1 0 [ex5]
      = (map_sum id (\<lambda>_. length [ex5]) (decode (5, 5) 1 ([ex5] ! 0)), h')"
    using decode_st_sim [OF p] by blast
  obtain kp where "decode (5, 5) 1 ex5 = Inr \<lparr>shape = [1, 1, 3], data = kp\<rparr>"
    using decode_ok [OF ex5_ok] by auto
  then have r: "fst (decode_st (5, 5) 1 0 [ex5]) = Inr 1" using d by simp
  show ?thesis using input_not_mutated [OF p run] r by simp
qed

section \<open>Raw-heatmap mode and malformed heatmaps\<close>

text \<open>
  Claim C5. The option \<open>return_heatmap\<close> is stored by \<open>__init__\<close>; \<open>__call__\<close> takes
  the input only. With the option set, the call returns the heatmap that the final
  block produced, whatever it is, and the decoder is not run.
\<close>

theorem raw_heatmap_mode:
  assumes "SimplePose_init bb dec fin ret in_channels insz kpts = Inr net"
  shows "return_heatmap net = ret \<and>
         (ret \<longrightarrow> SimplePose_call net x = Inr (fin (dec (bb x)))) \<and>
         (\<not> ret \<longrightarrow> SimplePose_call net x
                    = decode (fst insz div 4, snd insz div 4) kpts (fin (dec (bb x))))"
  using assms by (auto simp: SimplePose_init_def SimplePose_call_def split: if_splits)

text \<open>
  A model in raw-heatmap mode returns even a heatmap that its decoder would reject.
\<close>

theorem raw_heatmap_mode_witness:
  "\<exists>net. SimplePose_init id id id True 3 (256, 192) 17 = Inr net \<and>
         SimplePose_call net ex3d = Inr ex3d \<and> (\<exists>e. decode (out_size net) (keypoints net) ex3d = Inl e)"
proof -
  obtain net where n: "SimplePose_init id id id True 3 (256, 192) 17 = Inr net"
    by (simp add: SimplePose_init_def)
  have "SimplePose_call net ex3d = Inr ex3d" using raw_heatmap_mode [OF n, of ex3d] by simp
  moreover have "decode (out_size net) (keypoints net) ex3d = Inl ReshapeError"
    using n by (auto simp: SimplePose_init_def decode_def ex3d_def infer_dim_def)
  ultimately show ?thesis using n by blast
qed

lemma get_item_low_rank: "length (shape a) < 4 \<Longrightarrow> get_item a b k = Inl IndexError"
  by (auto simp: get_item_def split: list.splits)

lemma loops_low_rank:
  assumes "length (shape a) < 4" and "0 < B" and "0 < K"
  shows "for_each [0..<B] (\<lambda>b. for_each [0..<K] (refine osz K a keys_x keys_y b)) kp = Inl IndexError"
proof -
  have r: "refine osz K a keys_x keys_y 0 0 kp = Inl IndexError"
    by (simp add: refine_def get_item_low_rank [OF assms(1)])
  have "[0..<K] = 0 # [1..<K]" "[0..<B] = 0 # [1..<B]" using assms(2,3) by (simp_all add: upt_conv_Cons)
  then show ?thesis using r by simp
qed

lemma decode_low_rank:
  assumes sh: "shape a = batch # rest" and low: "length (shape a) < 4"
    and inf: "infer_dim batch K (prod_list (shape a)) = Inr n" and n: "n \<noteq> 0"
  shows "decode osz K a = (if snd osz < 65536 then Inl IndexError else Inl ConcatError)"
proof -
  have pos: "0 < batch" "0 < K" using inf by (auto simp: infer_dim_def split: if_splits)
  show ?thesis
    using sh inf n pos low
    by (simp add: decode_def Let_def keys_dtype_def F_concat_def loops_low_rank del: upt.simps)
qed

text \<open>
  Claim C4 as stated fails. The decoder does not check the shape, and no exception of
  its own exists. The heatmap \<open>ex3d\<close> has three axes and passes \<open>reshape\<close>, \<open>argmax\<close>,
  \<open>max\<close> and \<open>concat\<close>; the exception is the \<open>IndexError\<close> of the slice
  \<open>heatmap[b, k, :, :]\<close>. The heatmap \<open>ex5d\<close> has five axes and is decoded.
\<close>

theorem no_shape_validation_counterexample:
  "decode (2, 2) 2 ex3d = Inl IndexError \<and>
   decode (4, 4) 1 ex5d = Inr \<lparr>shape = [1, 1, 3], data = [Fin 0, Fin 0, Fin 1]\<rparr>"
proof -
  have sh: "shape ex3d = 2 # [2, 2]" by (simp add: ex3d_def)
  have low: "length (shape ex3d) < 4" by (simp add: ex3d_def)
  have inf: "infer_dim 2 2 (prod_list (shape ex3d)) = Inr 2" by (simp add: ex3d_def infer_dim_def)
  have a: "decode (2, 2) 2 ex3d = Inl IndexError"
    using decode_low_rank [OF sh low inf, of "(2, 2)"] by simp
  have c: "argmax_row (replicate 16 (Fin 1)) = 0" "amax_row (replicate 16 (Fin 1)) = Fin 1"
    by (rule const_row; simp)+
  have r: "refine (4, 4) K \<lparr>shape = [Suc 0, Suc 0, 4, 4, Suc 0], data = replicate 16 (Fin 1)\<rparr>
             [Fin 0] [Fin 0] 0 0 kp = Inr kp" for K kp
    by (simp add: refine_def get_item_def to_int_def)
  have b: "decode (4, 4) 1 ex5d = Inr \<lparr>shape = [1, 1, 3], data = [Fin 0, Fin 0, Fin 1]\<rparr>"
    by (simp add: decode_def ex5d_def infer_dim_def rows_def c F_argmax_def astype_int32_def
        astype_float32_def cast_f32_def idx_mod_def idx_floordiv_def score_mask_def keys_dtype_def
        F_concat_def concat3_def Let_def r)
  show ?thesis using a b by (rule conjI)
qed

text \<open>
  Claim C4, amended. A heatmap with fewer than four axes, a heatmap with four axes
  one of which is zero, and any heatmap for a model with zero keypoints make the call
  end in an exception of the array operation that cannot proceed, and no result is
  returned: with four axes it is the exception of \<open>reshape\<close> or of \<open>argmax\<close>, raised
  before any slice is taken; with fewer it may also be the \<open>IndexError\<close> of
  \<open>heatmap.shape[0]\<close> (no axis at all), the exception of \<open>F.concat\<close> (for a model of
  output width \<open>65536\<close> or more) or the \<open>IndexError\<close> of the slice
  \<open>heatmap[b, k, :, :]\<close>.
\<close>

theorem malformed_heatmap_fails:
  assumes "length (shape a) < 4 \<or> (length (shape a) = 4 \<and> 0 \<in> set (shape a)) \<or> K = 0"
  shows "\<exists>e. decode osz K a = Inl e \<and>
           (e = ShapeIndexError \<or> e = ReshapeError \<or> e = ArgmaxError \<or> e = ConcatError \<or>
            e = IndexError) \<and>
           (e = ShapeIndexError \<longrightarrow> shape a = []) \<and>
           (e = ConcatError \<longrightarrow> length (shape a) < 4 \<and> 65536 \<le> snd osz) \<and>
           (e = IndexError \<longrightarrow> length (shape a) < 4 \<and> snd osz < 65536) \<and>
           (length (shape a) = 4 \<longrightarrow> e = ReshapeError \<or> e = ArgmaxError)"
proof (cases "shape a")
  case Nil
  then show ?thesis by (simp add: decode_def)
next
  case (Cons batch rest)
  show ?thesis
  proof (cases "infer_dim batch K (prod_list (shape a))")
    case (Inl e)
    then have "e = ReshapeError" by (simp add: infer_dim_def split: if_splits)
    then show ?thesis using Inl Cons by (simp add: decode_def)
  next
    case (Inr n)
    then have pos: "0 < batch" "0 < K" and n: "n = prod_list (shape a) div (batch * K)"
      by (auto simp: infer_dim_def split: if_splits)
    show ?thesis
    proof (cases "n = 0")
      case True
      then show ?thesis using Inr Cons by (simp add: decode_def)
    next
      case False
      then have nz: "prod_list (shape a) \<noteq> 0" using n by (cases "prod_list (shape a) = 0") simp_all
      then have "0 \<notin> set (shape a)" by (simp add: prod_list_zero_iff)
      then have low: "length (shape a) < 4" using assms pos by auto
      have "decode osz K a = (if snd osz < 65536 then Inl IndexError else Inl ConcatError)"
        using Cons low Inr False by (rule decode_low_rank)
      then show ?thesis using low Cons by (cases "snd osz < 65536") simp_all
    qed
  qed
qed

theorem malformed_heatmap_fails_witness:
  "(\<exists>e. decode (64, 48) 17 \<lparr>shape = [17, 64, 48], data = replicate (17 * 64 * 48) (Fin 0)\<rparr> = Inl e) \<and>
   (\<exists>e. decode (64, 48) 17 \<lparr>shape = [0, 17, 64, 48], data = []\<rparr> = Inl e \<and>
        (e = ReshapeError \<or> e = ArgmaxError))"
proof -
  have a: "\<exists>e. decode (64, 48) 17 \<lparr>shape = [17, 64, 48], data = replicate (17 * 64 * 48) (Fin 0)\<rparr> = Inl e"
    using malformed_heatmap_fails
      [of "\<lparr>shape = [17, 64, 48], data = replicate (17 * 64 * 48) (Fin 0)\<rparr>" 17 "(64, 48)"]
    by auto
  have b: "\<exists>e. decode (64, 48) 17 \<lparr>shape = [0, 17, 64, 48], data = []\<rparr> = Inl e \<and>
        (e = ReshapeError \<or> e = ArgmaxError)"
    using malformed_heatmap_fails [of "\<lparr>shape = [0, 17, 64, 48], data = []\<rparr>" 17 "(64, 48)"]
    by auto
  show ?thesis using a b by blast
qed

section \<open>Non-finite values\<close>

lemma fmaximum_NaN_right: "fmaximum a NaN = NaN"
  by (cases a) (simp_all add: fmaximum_def)

lemma foldl_fmaximum_has_NaN: "NaN \<in> set xs \<Longrightarrow> foldl fmaximum a xs = NaN"
proof (induction xs arbitrary: a)
  case Nil
  then show ?case by simp
next
  case (Cons x xs)
  show ?case
  proof (cases "x = NaN")
    case True
    then show ?thesis by (simp add: fmaximum_NaN_right foldl_fmaximum_NaN)
  next
    case False
    then have "NaN \<in> set xs" using Cons.prems by simp
    then show ?thesis using Cons.IH by simp
  qed
qed

lemma amax_row_NaN: "NaN \<in> set xs \<Longrightarrow> amax_row xs = NaN"
proof (cases xs)
  case Nil
  assume "NaN \<in> set xs" with Nil show ?thesis by simp
next
  case (Cons x rest)
  assume m: "NaN \<in> set xs"
  show ?thesis
  proof (cases "x = NaN")
    case True
    then show ?thesis using Cons by (simp add: amax_row_def foldl_fmaximum_NaN)
  next
    case False
    then have "NaN \<in> set rest" using m Cons by simp
    then show ?thesis using Cons by (simp add: amax_row_def foldl_fmaximum_has_NaN)
  qed
qed

lemma no_NaN_list_all: "NaN \<notin> set xs \<Longrightarrow> list_all (\<lambda>x. \<not> is_nan x) xs"
proof -
  have "is_nan x \<Longrightarrow> x = NaN" for x by (cases x) simp_all
  then show "NaN \<notin> set xs \<Longrightarrow> list_all (\<lambda>x. \<not> is_nan x) xs"
    by (auto simp: list_all_iff)
qed

lemma amax_row_PInf:
  assumes "NaN \<notin> set xs" and "PInf \<in> set xs"
  shows "amax_row xs = PInf"
proof -
  have "fle v PInf" if "v \<noteq> NaN" for v using that by (cases v) simp_all
  then have "list_all (\<lambda>v. fle v PInf) xs" using assms(1) unfolding list_all_iff by metis
  with assms(2) show ?thesis by (rule amax_is_max)
qed

text \<open>
  Claim C9, amended. On a well-formed heatmap of width \<open>W < 65536\<close> no value makes
  the decoder fail, and nothing is filtered or clamped. The score is the IEEE maximum of the slice: NaN when
  the slice holds a NaN, otherwise \<open>+\<infinity>\<close> when it holds one. A slice with a NaN is
  gated, since \<open>NaN > 0\<close> is false: its record is \<open>(0, 0, NaN)\<close>. Without a NaN, at
  a positive interior peak of a slice of at most \<open>2 ^ 24\<close> entries the offsets are
  formed in IEEE arithmetic from the neighbours as they are, so \<open>x\<close> (or \<open>y\<close>) is
  NaN when both neighbours are \<open>-\<infinity>\<close>.
\<close>

theorem nonfinite_values:
  assumes ok: "heatmap_ok a B K H W" and wd: "W < 65536" and b: "b < B" and k: "k < K"
  shows "\<exists>r. decode (H, W) K a = Inr r \<and>
           (NaN \<in> set (hm_slice a b k) \<longrightarrow>
              kp_x r b k = Fin 0 \<and> kp_y r b k = Fin 0 \<and> kp_score r b k = NaN) \<and>
           (NaN \<notin> set (hm_slice a b k) \<and> PInf \<in> set (hm_slice a b k) \<longrightarrow> kp_score r b k = PInf) \<and>
           (\<forall>row col.
              H * W \<le> 2 ^ 24 \<and> NaN \<notin> set (hm_slice a b k) \<and> row < H \<and> col < W \<and>
              first_max (hm_slice a b k) (row * W + col) \<and> fgt (hm_entry a b k row col) (Fin 0) \<and>
              (1 < col \<and> col < W - 1) \<and> (1 < row \<and> row < H - 1) \<longrightarrow>
              kp_score r b k = hm_entry a b k row col \<and>
              kp_x r b k = fadd (Fin (real col))
                             (quarter (hm_entry a b k row (col + 1)) (hm_entry a b k row (col - 1))) \<and>
              kp_y r b k = fadd (Fin (real row))
                             (quarter (hm_entry a b k (row + 1) col) (hm_entry a b k (row - 1) col)) \<and>
              (hm_entry a b k row (col + 1) = NInf \<and> hm_entry a b k row (col - 1) = NInf
                 \<longrightarrow> kp_x r b k = NaN) \<and>
              (hm_entry a b k (row + 1) col = NInf \<and> hm_entry a b k (row - 1) col = NInf
                 \<longrightarrow> kp_y r b k = NaN))"
proof -
  let ?xs = "hm_slice a b k"
  obtain r where d: "decode (H, W) K a = Inr r"
    and slot0: "[kp_x r b k, kp_y r b k, kp_score r b k] = slot_decoded H W ?xs"
    using decode_slot_decoded [OF ok wd b k] by blast
  have nan: "kp_x r b k = Fin 0 \<and> kp_y r b k = Fin 0 \<and> kp_score r b k = NaN" if "NaN \<in> set ?xs"
  proof -
    have am: "amax_row ?xs = NaN" using that by (rule amax_row_NaN)
    have ng: "\<not> fgt (amax_row ?xs) (Fin 0)" unfolding am by simp
    have "slot_decoded H W ?xs = [Fin 0, Fin 0, amax_row ?xs]" using ng by (rule slot_decoded_gated)
    then show ?thesis using slot0 am by simp
  qed
  have inf: "kp_score r b k = PInf" if "NaN \<notin> set ?xs \<and> PInf \<in> set ?xs"
  proof -
    have am: "amax_row ?xs = PInf" using that by (simp add: amax_row_PInf)
    have "[kp_x r b k, kp_y r b k, kp_score r b k] ! 2 = amax_row ?xs"
      unfolding slot0 by (rule slot_decoded_score)
    then show ?thesis using am by (simp add: numeral_2_eq_2)
  qed
  have peak: "kp_score r b k = hm_entry a b k row col \<and>
      kp_x r b k = fadd (Fin (real col))
                     (quarter (hm_entry a b k row (col + 1)) (hm_entry a b k row (col - 1))) \<and>
      kp_y r b k = fadd (Fin (real row))
                     (quarter (hm_entry a b k (row + 1) col) (hm_entry a b k (row - 1) col)) \<and>
      (hm_entry a b k row (col + 1) = NInf \<and> hm_entry a b k row (col - 1) = NInf
         \<longrightarrow> kp_x r b k = NaN) \<and>
      (hm_entry a b k (row + 1) col = NInf \<and> hm_entry a b k (row - 1) col = NInf
         \<longrightarrow> kp_y r b k = NaN)"
    if h: "H * W \<le> 2 ^ 24 \<and> NaN \<notin> set ?xs \<and> row < H \<and> col < W \<and>
           first_max ?xs (row * W + col) \<and> fgt (hm_entry a b k row col) (Fin 0) \<and>
           (1 < col \<and> col < W - 1) \<and> (1 < row \<and> row < H - 1)" for row col
  proof -
    have sz: "H * W \<le> 2 ^ 24" using h by simp
    have "slot_decoded H W ?xs = slot_of H W ?xs"
      using slice_length(2) [OF ok b k] slice_length(1) [OF ok b k] sz by (rule slot_decoded_small)
    then have slot: "[kp_x r b k, kp_y r b k, kp_score r b k] = slot_of H W ?xs"
      using slot0 by simp
    have nn: "list_all (\<lambda>x. \<not> is_nan x) ?xs" using h by (simp add: no_NaN_list_all)
    have row: "row < H" and col: "col < W" and fm: "first_max ?xs (row * W + col)" using h by simp_all
    have pk: "argmax_row ?xs mod W = col" "argmax_row ?xs div W = row"
      "amax_row ?xs = ?xs ! (row * W + col)"
      using fm col nn by (rule peak_position)+
    have sc: "amax_row ?xs = hm_entry a b k row col"
      using pk(3) hm_entry_slice [OF ok b k row col] by simp
    have pos: "fgt (amax_row ?xs) (Fin 0)" using h sc by simp
    have int: "1 < col \<and> col + 1 < W \<and> 1 < row \<and> row + 1 < H" using h by linarith
    have lt: "col + 1 < W" "col - 1 < W" "row + 1 < H" "row - 1 < H" using int by linarith+
    have e: "?xs ! (row * W + (col + 1)) = hm_entry a b k row (col + 1)"
      "?xs ! (row * W + (col - 1)) = hm_entry a b k row (col - 1)"
      "?xs ! ((row + 1) * W + col) = hm_entry a b k (row + 1) col"
      "?xs ! ((row - 1) * W + col) = hm_entry a b k (row - 1) col"
      using hm_entry_slice [OF ok b k] row col lt by blast+
    have "slot_of H W ?xs =
          [fadd (Fin (real col)) (quarter (hm_entry a b k row (col + 1)) (hm_entry a b k row (col - 1))),
           fadd (Fin (real row)) (quarter (hm_entry a b k (row + 1) col) (hm_entry a b k (row - 1) col)),
           amax_row ?xs]"
      by (simp only: slot_of_def Let_def pk(1,2) if_P [OF pos] if_P [OF int] e)
    then have xy: "kp_x r b k = fadd (Fin (real col))
                     (quarter (hm_entry a b k row (col + 1)) (hm_entry a b k row (col - 1)))"
      "kp_y r b k = fadd (Fin (real row))
                     (quarter (hm_entry a b k (row + 1) col) (hm_entry a b k (row - 1) col))"
      "kp_score r b k = hm_entry a b k row col"
      using slot sc by simp_all
    have q: "fadd (Fin c) (quarter NInf NInf) = NaN" for c by (simp add: quarter_def fsub_def)
    show ?thesis using xy q by auto
  qed
  show ?thesis using d nan inf peak by blast
qed

lemma ex_inf_ok: "heatmap_ok ex_inf 1 1 5 5"
  by (simp add: heatmap_ok_def ex_inf_def ex5_def valid_array_def)

lemma ex_inf_slice:
  "hm_slice ex_inf 0 0 = [Fin 0, Fin 0, Fin 0, Fin 0, Fin 0,  Fin 0, Fin 0, Fin 1, Fin 0, Fin 0,
     Fin 0, NInf, Fin 5, NInf, Fin 0,  Fin 0, Fin 0, Fin 1, Fin 0, Fin 0,
     Fin 0, Fin 0, Fin 0, Fin 0, Fin 0]"
  by (simp add: hm_slice_def ex_inf_def ex5_def)

lemma ex_inf_entries:
  "hm_entry ex_inf 0 0 2 2 = Fin 5" "hm_entry ex_inf 0 0 2 (2 + 1) = NInf"
  "hm_entry ex_inf 0 0 2 (2 - 1) = NInf"
  by (simp_all add: hm_entry_def ex_inf_def ex5_def)

theorem nonfinite_values_witness:
  "\<exists>r. decode (5, 5) 1 ex_inf = Inr r \<and> kp_x r 0 0 = NaN \<and> kp_score r 0 0 = Fin 5"
proof -
  have nn: "NaN \<notin> set (hm_slice ex_inf 0 0)" unfolding ex_inf_slice by simp
  have fm: "first_max (hm_slice ex_inf 0 0) (2 * 5 + 2)"
    unfolding ex_inf_slice by (simp add: first_max_def)
  have pos: "fgt (hm_entry ex_inf 0 0 2 2) (Fin 0)" by (simp add: ex_inf_entries)
  obtain r where d: "decode (5, 5) 1 ex_inf = Inr r"
    and pk: "\<forall>row col.
              (5::nat) * 5 \<le> 2 ^ 24 \<and> NaN \<notin> set (hm_slice ex_inf 0 0) \<and> row < 5 \<and> col < 5 \<and>
              first_max (hm_slice ex_inf 0 0) (row * 5 + col) \<and>
              fgt (hm_entry ex_inf 0 0 row col) (Fin 0) \<and>
              (1 < col \<and> col < 5 - 1) \<and> (1 < row \<and> row < 5 - 1) \<longrightarrow>
              kp_score r 0 0 = hm_entry ex_inf 0 0 row col \<and>
              kp_x r 0 0 = fadd (Fin (real col))
                             (quarter (hm_entry ex_inf 0 0 row (col + 1)) (hm_entry ex_inf 0 0 row (col - 1))) \<and>
              kp_y r 0 0 = fadd (Fin (real row))
                             (quarter (hm_entry ex_inf 0 0 (row + 1) col) (hm_entry ex_inf 0 0 (row - 1) col)) \<and>
              (hm_entry ex_inf 0 0 row (col + 1) = NInf \<and> hm_entry ex_inf 0 0 row (col - 1) = NInf
                 \<longrightarrow> kp_x r 0 0 = NaN) \<and>
              (hm_entry ex_inf 0 0 (row + 1) col = NInf \<and> hm_entry ex_inf 0 0 (row - 1) col = NInf
                 \<longrightarrow> kp_y r 0 0 = NaN)"
    using nonfinite_values [OF ex_inf_ok, where b = 0 and k = 0] by auto
  have h: "(5::nat) * 5 \<le> 2 ^ 24 \<and> NaN \<notin> set (hm_slice ex_inf 0 0) \<and> (2::nat) < 5 \<and> (2::nat) < 5 \<and>
              first_max (hm_slice ex_inf 0 0) (2 * 5 + 2) \<and>
              fgt (hm_entry ex_inf 0 0 2 2) (Fin 0) \<and>
              (1 < (2::nat) \<and> (2::nat) < 5 - 1) \<and> (1 < (2::nat) \<and> (2::nat) < 5 - 1)"
    using nn fm pos by simp
  have "kp_score r 0 0 = hm_entry ex_inf 0 0 2 2"
    and "kp_x r 0 0 = fadd (Fin (real (2::nat)))
                       (quarter (hm_entry ex_inf 0 0 2 (2 + 1)) (hm_entry ex_inf 0 0 2 (2 - 1)))"
    using pk [rule_format, OF h] by blast+
  then have "kp_x r 0 0 = NaN \<and> kp_score r 0 0 = Fin 5"
    unfolding ex_inf_entries by (simp add: quarter_def fsub_def)
  then show ?thesis using d by blast
qed

text \<open>
  Claim C9 as stated fails for \<open>x\<close> and \<open>y\<close>: a NaN above the peak of the refinement
  example becomes the score, and the coordinates are zero. For a width of \<open>65536\<close>
  a heatmap of NaN, as any other, ends in the exception of \<open>F.concat\<close>.
\<close>

theorem nan_gated_counterexample:
  "decode (5, 5) 1 ex_nan = Inr \<lparr>shape = [1, 1, 3], data = [Fin 0, Fin 0, NaN]\<rparr> \<and>
   decode (1, 65536) 1 (wide_hm NaN) = Inl ConcatError"
proof -
  have ok: "heatmap_ok ex_nan 1 1 5 5"
    by (simp add: heatmap_ok_def ex_nan_def ex5_def valid_array_def)
  have "NaN \<in> set (hm_slice ex_nan 0 0)" by (simp add: hm_slice_def ex_nan_def ex5_def)
  then have am: "amax_row (hm_slice ex_nan 0 0) = NaN" by (rule amax_row_NaN)
  have ng: "\<not> fgt (amax_row (hm_slice ex_nan 0 0)) (Fin 0)" unfolding am by simp
  have "slot_decoded 5 5 (hm_slice ex_nan 0 0) = [Fin 0, Fin 0, NaN]"
    using slot_decoded_gated [OF ng] am by simp
  then have a: "decode (5, 5) 1 ex_nan = Inr \<lparr>shape = [1, 1, 3], data = [Fin 0, Fin 0, NaN]\<rparr>"
    using decode_single [OF ok] by simp
  have w: "decode (1, 65536) 1 (wide_hm NaN) = Inl ConcatError"
    using wide_hm_ok by (rule decode_wide) simp
  show ?thesis using a w by (rule conjI)
qed

end
